theory Spec2Isabelle
  imports Main "HOL-Library.Word"
begin

section \<open>Rope nodes (node.hpp, node.cpp)\<close>

text \<open>
  \<^verbatim>\<open>size_t\<close> is a 64-bit unsigned integer: arithmetic wraps. \<^verbatim>\<open>int\<close> is a 32-bit
  integer read in two's complement (\<open>sint\<close>). C++ leaves the overflow of an \<^verbatim>\<open>int\<close> sum
  undefined; the sums in \<^verbatim>\<open>fib\<close> and \<^verbatim>\<open>buildFibList\<close> are modelled as wrapping, which is
  what the compiled code does, and no result below evaluates a sum that overflows.
\<close>

type_synonym size_t = "64 word"
type_synonym cint = "32 word"

text \<open>
  What a call can end with instead of a value:
  \<^item> \<open>InvalidArgument\<close>: the \<^verbatim>\<open>std::invalid_argument\<close> constants \<^verbatim>\<open>ERROR_OOB_NODE\<close> and
    \<^verbatim>\<open>ERROR_OOB_ROPE\<close> ("Error: string index out of bounds");
  \<^item> \<open>StdOutOfRange\<close>: the \<^verbatim>\<open>std::out_of_range\<close> that \<^verbatim>\<open>std::string::substr\<close> throws when
    its position is past the end of the string;
  \<^item> \<open>Undefined\<close>: a null handle is dereferenced or a vector or string is read out of
    range; C++ gives no meaning to the execution from there on.
\<close>

datatype error = InvalidArgument | StdOutOfRange | Undefined

text \<open>
  A \<^verbatim>\<open>rope_node\<close> has the four fields of the class (\<^verbatim>\<open>weight_\<close>, \<^verbatim>\<open>left_\<close>, \<^verbatim>\<open>right_\<close> and
  \<^verbatim>\<open>fragment_\<close>, here without the trailing underscore); a \<^verbatim>\<open>handle\<close>
  (\<^verbatim>\<open>std::unique_ptr<rope_node>\<close>) is an optional owned node, \<open>None\<close> for \<^verbatim>\<open>nullptr\<close>.
  A unique pointer cannot be copied, so a subtree has one owner and a tree is a value.
\<close>

datatype rope_node =
  rope_node (weight: size_t) (left: "rope_node option") (right: "rope_node option")
    (fragment: string)

type_synonym handle = "rope_node option"

text \<open>\<^verbatim>\<open>std::string::substr(pos, count)\<close>: throws when \<open>pos > size()\<close>, otherwise the
  characters from \<open>pos\<close>, at most \<open>count\<close> of them.\<close>

definition substr :: "string \<Rightarrow> size_t \<Rightarrow> size_t \<Rightarrow> error + string" where
  "substr s pos n =
     (if unat pos > length s then Inl StdOutOfRange
      else Inr (take (unat n) (drop (unat pos) s)))"

text \<open>\<^verbatim>\<open>rope_node::isLeaf\<close>. The functions below, which take a node apart by its
  fields, write the test as \<open>l = None \<and> r = None\<close>.\<close>

definition isLeaf :: "rope_node \<Rightarrow> bool" where
  "isLeaf n \<longleftrightarrow> left n = None \<and> right n = None"

text \<open>\<^verbatim>\<open>rope_node::getLength\<close>: the weight of the node and of all nodes on the path to
  the rightmost child.\<close>

fun getLength :: "rope_node \<Rightarrow> size_t" where
  "getLength (rope_node w l r frag) =
     (if l = None \<and> r = None then w
      else w + (case r of None \<Rightarrow> 0 | Some r' \<Rightarrow> getLength r'))"

text \<open>\<^verbatim>\<open>rope_node(const string& str)\<close>: the leaf constructor.\<close>

definition leaf :: "string \<Rightarrow> rope_node" where
  "leaf str = rope_node (of_nat (length str)) None None str"

text \<open>\<^verbatim>\<open>rope_node(handle l, handle r)\<close>: the concatenation constructor. It reads
  \<^verbatim>\<open>this->left_->getLength()\<close>, so a null left operand is a null dereference.\<close>

definition concat_node :: "handle \<Rightarrow> handle \<Rightarrow> error + rope_node" where
  "concat_node l r =
     (case l of None \<Rightarrow> Inl Undefined
      | Some l' \<Rightarrow> Inr (rope_node (getLength l') (Some l') r []))"

text \<open>\<^verbatim>\<open>rope_node(const rope_node&)\<close>: the copy constructor clones both subtrees.\<close>

fun copy_node :: "rope_node \<Rightarrow> rope_node" where
  "copy_node (rope_node w l r frag) =
     rope_node w
       (case l of None \<Rightarrow> None | Some l' \<Rightarrow> Some (copy_node l'))
       (case r of None \<Rightarrow> None | Some r' \<Rightarrow> Some (copy_node r'))
       frag"

text \<open>\<^verbatim>\<open>rope_node::getCharByIndex\<close>. \<^verbatim>\<open>fragment_[index]\<close> is the character at \<open>index\<close>,
  the terminating null character when \<open>index\<close> is the size of the string, and undefined
  past it.\<close>

fun getCharByIndex :: "rope_node \<Rightarrow> size_t \<Rightarrow> error + char" where
  "getCharByIndex (rope_node w l r frag) index =
     (if l = None \<and> r = None then
        (if index \<ge> w then Inl InvalidArgument
         else if unat index < length frag then Inr (frag ! unat index)
         else if unat index = length frag then Inr (CHR 0x00)
         else Inl Undefined)
      else if index < w then
        (case l of None \<Rightarrow> Inl Undefined | Some l' \<Rightarrow> getCharByIndex l' index)
      else
        (case r of None \<Rightarrow> Inl Undefined | Some r' \<Rightarrow> getCharByIndex r' (index - w)))"

text \<open>\<^verbatim>\<open>rope_node::getSubstring\<close>.\<close>

fun getSubstring :: "rope_node \<Rightarrow> size_t \<Rightarrow> size_t \<Rightarrow> error + string" where
  "getSubstring (rope_node w l r frag) start len =
     (if l = None \<and> r = None then
        (if len < w then substr frag start len else Inr frag)
      else if start < w then
        (case (case l of None \<Rightarrow> Inr [] | Some l' \<Rightarrow> getSubstring l' start len) of
           Inl e \<Rightarrow> Inl e
         | Inr lResult \<Rightarrow>
             if start + len > w then
               (case (case r of None \<Rightarrow> Inr []
                      | Some r' \<Rightarrow> getSubstring r' w (len - (w - start))) of
                  Inl e \<Rightarrow> Inl e
                | Inr rResult \<Rightarrow> Inr (lResult @ rResult))
             else Inr lResult)
      else
        (case r of None \<Rightarrow> Inr [] | Some r' \<Rightarrow> getSubstring r' (start - w) len))"

text \<open>\<^verbatim>\<open>rope_node::treeToString\<close>.\<close>

fun treeToString :: "rope_node \<Rightarrow> string" where
  "treeToString (rope_node w l r frag) =
     (if l = None \<and> r = None then frag
      else (case l of None \<Rightarrow> [] | Some l' \<Rightarrow> treeToString l')
         @ (case r of None \<Rightarrow> [] | Some r' \<Rightarrow> treeToString r'))"

text \<open>\<^verbatim>\<open>splitAt(handle node, size_t index)\<close>. The node is consumed; in the branch
  \<open>index < w\<close> it is reused as the left result with its right child reset to null.\<close>

fun splitAt :: "handle \<Rightarrow> size_t \<Rightarrow> error + (handle \<times> handle)" where
  "splitAt None index = Inl Undefined"
| "splitAt (Some (rope_node w l r frag)) index =
     (if l = None \<and> r = None then
        (case substr frag 0 index of
           Inl e \<Rightarrow> Inl e
         | Inr a \<Rightarrow>
             (case substr frag index (w - index) of
                Inl e \<Rightarrow> Inl e
              | Inr b \<Rightarrow> Inr (Some (leaf a), Some (leaf b))))
      else if index < w then
        (case splitAt l index of
           Inl e \<Rightarrow> Inl e
         | Inr (ll, lr) \<Rightarrow>
             (case concat_node lr r of
                Inl e \<Rightarrow> Inl e
              | Inr c \<Rightarrow> Inr (Some (rope_node index ll None frag), Some c)))
      else if w < index then
        (case splitAt r (index - w) of
           Inl e \<Rightarrow> Inl e
         | Inr (rl, rr) \<Rightarrow> Inr (Some (rope_node w l rl frag), rr))
      else Inr (l, r))"

text \<open>\<^verbatim>\<open>rope_node::getDepth\<close>: both results are incremented before the maximum is
  taken, also the 0 of an absent child.\<close>

fun getDepth :: "rope_node \<Rightarrow> size_t" where
  "getDepth (rope_node w l r frag) =
     (if l = None \<and> r = None then 0
      else max ((case l of None \<Rightarrow> 0 | Some l' \<Rightarrow> getDepth l') + 1)
               ((case r of None \<Rightarrow> 0 | Some r' \<Rightarrow> getDepth r') + 1))"

text \<open>\<^verbatim>\<open>rope_node::getLeaves\<close>: the leaves, left to right.\<close>

fun getLeaves :: "rope_node \<Rightarrow> rope_node list" where
  "getLeaves (rope_node w l r frag) =
     (if l = None \<and> r = None then [rope_node w l r frag]
      else (case l of None \<Rightarrow> [] | Some l' \<Rightarrow> getLeaves l')
         @ (case r of None \<Rightarrow> [] | Some r' \<Rightarrow> getLeaves r'))"

section \<open>Ropes (rope.hpp, rope.cpp)\<close>

text \<open>A \<^verbatim>\<open>rope\<close> is its root handle (\<^verbatim>\<open>root_\<close>).\<close>

record rope =
  root :: handle

text \<open>
  A mutator returns the exception it ended with, if any, and the rope as the call
  leaves it. \<^verbatim>\<open>std::move(this->root_)\<close> passed to a by-value handle parameter empties
  \<^verbatim>\<open>root_\<close> at the call, so an exception out of the callee leaves the root null.
\<close>

type_synonym mutation = "error option \<times> rope"

text \<open>\<^verbatim>\<open>rope(const string&)\<close> and \<^verbatim>\<open>rope(void)\<close>, which delegates to it with \<^verbatim>\<open>""\<close>.\<close>

definition rope_of_string :: "string \<Rightarrow> rope" where
  "rope_of_string str = \<lparr>root = Some (leaf str)\<rparr>"

definition rope_default :: rope where
  "rope_default = rope_of_string []"

text \<open>\<^verbatim>\<open>rope(const rope&)\<close>: clones \<^verbatim>\<open>*r.root_\<close> into a local node and clones that into
  the new root. A null \<^verbatim>\<open>r.root_\<close> is dereferenced.\<close>

definition rope_copy :: "rope \<Rightarrow> error + rope" where
  "rope_copy r =
     (case root r of None \<Rightarrow> Inl Undefined
      | Some n \<Rightarrow> Inr \<lparr>root = Some (copy_node (copy_node n))\<rparr>)"

text \<open>\<^verbatim>\<open>rope::toString\<close> and \<^verbatim>\<open>rope::length\<close>.\<close>

definition toString :: "rope \<Rightarrow> string" where
  "toString r = (case root r of None \<Rightarrow> [] | Some n \<Rightarrow> treeToString n)"

definition length_rope :: "rope \<Rightarrow> size_t" where
  "length_rope r = (case root r of None \<Rightarrow> 0 | Some n \<Rightarrow> getLength n)"

text \<open>\<^verbatim>\<open>rope::at\<close>.\<close>

definition at :: "rope \<Rightarrow> size_t \<Rightarrow> error + char" where
  "at r index =
     (case root r of None \<Rightarrow> Inl InvalidArgument
      | Some n \<Rightarrow> getCharByIndex n index)"

text \<open>\<^verbatim>\<open>rope::substring\<close>: \<^verbatim>\<open>start+len\<close> is a \<^verbatim>\<open>size_t\<close> sum.\<close>

definition substring :: "rope \<Rightarrow> size_t \<Rightarrow> size_t \<Rightarrow> error + string" where
  "substring r start len =
     (let actualLength = length_rope r in
      if start > actualLength \<or> start + len > actualLength then Inl InvalidArgument
      else (case root r of None \<Rightarrow> Inl Undefined
            | Some n \<Rightarrow> getSubstring n start len))"

text \<open>\<^verbatim>\<open>rope::insert(size_t, const rope&)\<close>. The argument is cloned into \<^verbatim>\<open>tmp\<close> before
  the root is split and is not read afterwards, so the same function describes the call
  whose argument is the rope itself.\<close>

definition insert_rope :: "rope \<Rightarrow> size_t \<Rightarrow> rope \<Rightarrow> mutation" where
  "insert_rope this i r =
     (if length_rope this < i then (Some InvalidArgument, this)
      else
        (case rope_copy r of
           Inl e \<Rightarrow> (Some e, this)
         | Inr tmp \<Rightarrow>
             (case splitAt (root this) i of
                Inl e \<Rightarrow> (Some e, \<lparr>root = None\<rparr>)
              | Inr (first, second) \<Rightarrow>
                  (case concat_node first (root tmp) of
                     Inl e \<Rightarrow> (Some e, \<lparr>root = None\<rparr>)
                   | Inr tmpConcat \<Rightarrow>
                       (case concat_node (Some tmpConcat) second of
                          Inl e \<Rightarrow> (Some e, \<lparr>root = None\<rparr>)
                        | Inr n \<Rightarrow> (None, \<lparr>root = Some n\<rparr>))))))"

text \<open>\<^verbatim>\<open>rope::insert(size_t, const string&)\<close>.\<close>

definition insert_string :: "rope \<Rightarrow> size_t \<Rightarrow> string \<Rightarrow> mutation" where
  "insert_string this i str = insert_rope this i (rope_of_string str)"

text \<open>\<^verbatim>\<open>rope::append(const string&)\<close> and \<^verbatim>\<open>rope::append(const rope&)\<close>.\<close>

definition append_string :: "rope \<Rightarrow> string \<Rightarrow> mutation" where
  "append_string this str =
     (let tmp = rope_of_string str in
      case concat_node (root this) (root tmp) of
        Inl e \<Rightarrow> (Some e, \<lparr>root = None\<rparr>)
      | Inr n \<Rightarrow> (None, \<lparr>root = Some n\<rparr>))"

definition append_rope :: "rope \<Rightarrow> rope \<Rightarrow> mutation" where
  "append_rope this r =
     (case rope_copy r of
        Inl e \<Rightarrow> (Some e, this)
      | Inr tmp \<Rightarrow>
          (case concat_node (root this) (root tmp) of
             Inl e \<Rightarrow> (Some e, \<lparr>root = None\<rparr>)
           | Inr n \<Rightarrow> (None, \<lparr>root = Some n\<rparr>)))"

text \<open>\<^verbatim>\<open>rope::rdelete\<close>: \<^verbatim>\<open>start+len\<close> is a \<^verbatim>\<open>size_t\<close> sum.\<close>

definition rdelete :: "rope \<Rightarrow> size_t \<Rightarrow> size_t \<Rightarrow> mutation" where
  "rdelete this start len =
     (let actualLength = length_rope this in
      if start > actualLength \<or> start + len > actualLength then (Some InvalidArgument, this)
      else
        (case splitAt (root this) start of
           Inl e \<Rightarrow> (Some e, \<lparr>root = None\<rparr>)
         | Inr (first1, second1) \<Rightarrow>
             (case splitAt second1 len of
                Inl e \<Rightarrow> (Some e, \<lparr>root = None\<rparr>)
              | Inr (first2, second2) \<Rightarrow>
                  (case concat_node first1 second2 of
                     Inl e \<Rightarrow> (Some e, \<lparr>root = None\<rparr>)
                   | Inr n \<Rightarrow> (None, \<lparr>root = Some n\<rparr>)))))"

subsection \<open>Balance detection and the Fibonacci helpers\<close>

text \<open>\<^verbatim>\<open>fib(size_t n)\<close>: \<open>a\<close>, \<open>b\<close> and \<open>next\<close> are \<^verbatim>\<open>int\<close>; the loop counter is a
  \<^verbatim>\<open>size_t\<close>, so for \<open>n = 2^64 - 1\<close> the test \<open>i \<le> n\<close> never fails and the loop does not
  return (\<open>None\<close>). The \<^verbatim>\<open>int\<close> result is converted to \<^verbatim>\<open>size_t\<close> (\<open>signed\<close>).\<close>

partial_function (option) fib_loop :: "size_t \<Rightarrow> size_t \<Rightarrow> cint \<Rightarrow> cint \<Rightarrow> cint option" where
  "fib_loop i n a b = (if i \<le> n then fib_loop (i + 1) n b (a + b) else Some b)"

declare fib_loop.simps [code]

definition fib :: "size_t \<Rightarrow> size_t option" where
  "fib n =
     (if n = 0 then Some 0
      else (case fib_loop 2 n 0 1 of None \<Rightarrow> None | Some b \<Rightarrow> Some (signed b)))"

text \<open>\<^verbatim>\<open>buildFibList(size_t len)\<close>: in \<^verbatim>\<open>a <= len\<close> the \<^verbatim>\<open>int\<close> is converted to
  \<^verbatim>\<open>size_t\<close>; \<^verbatim>\<open>a > 0\<close> is a signed comparison; \<^verbatim>\<open>push_back(b)\<close> converts \<open>b\<close>.\<close>

partial_function (option) buildFibList_loop ::
    "cint \<Rightarrow> cint \<Rightarrow> size_t \<Rightarrow> size_t list \<Rightarrow> size_t list option" where
  "buildFibList_loop a b len intervals =
     (if signed a \<le> len then
        buildFibList_loop b (a + b) len
          (if 0 <s a then intervals @ [signed b] else intervals)
      else Some intervals)"

declare buildFibList_loop.simps [code]

definition buildFibList :: "size_t \<Rightarrow> size_t list option" where
  "buildFibList len = buildFibList_loop 0 1 len []"

text \<open>\<^verbatim>\<open>rope::isBalanced\<close>.\<close>

definition isBalanced :: "rope \<Rightarrow> bool option" where
  "isBalanced this =
     (case root this of None \<Rightarrow> Some True
      | Some n \<Rightarrow>
          (let d = getDepth n in
           case fib (d + 2) of None \<Rightarrow> None
           | Some f \<Rightarrow> Some (length_rope this \<ge> f)))"

subsection \<open>Rebalancing\<close>

text \<open>\<^verbatim>\<open>v[i]\<close> on a \<^verbatim>\<open>std::vector\<close>: undefined when \<open>i\<close> is not below the size.\<close>

definition vec_at :: "'a list \<Rightarrow> size_t \<Rightarrow> error + 'a" where
  "vec_at v i = (if unat i < length v then Inr (v ! unat i) else Inl Undefined)"

text \<open>The block that \<^verbatim>\<open>rope::balance\<close> has twice, under the comment "concatenate
  encountered entries with node to be inserted": clone \<^verbatim>\<open>nodes[i]\<close> and \<open>acc\<close>,
  concatenate them, update \<open>len\<close>, and clear \<^verbatim>\<open>nodes[i]\<close> if
  \<^verbatim>\<open>len >= intervals[i+1]\<close>. It returns the new \<open>nodes\<close>, \<open>acc\<close> and \<open>len\<close>.\<close>

definition concat_slot ::
    "size_t list \<Rightarrow> handle list \<Rightarrow> size_t \<Rightarrow> handle
       \<Rightarrow> error + (handle list \<times> handle \<times> size_t)" where
  "concat_slot intervals nodes i acc =
     (case vec_at nodes i of
        Inl e \<Rightarrow> Inl e
      | Inr None \<Rightarrow> Inl Undefined
      | Inr (Some n) \<Rightarrow>
          (case acc of
             None \<Rightarrow> Inl Undefined
           | Some a \<Rightarrow>
               (case concat_node (Some (copy_node n)) (Some (copy_node a)) of
                  Inl e \<Rightarrow> Inl e
                | Inr c \<Rightarrow>
                    (let len = getLength c in
                     case vec_at intervals (i + 1) of
                       Inl e \<Rightarrow> Inl e
                     | Inr v \<Rightarrow>
                         Inr (if len \<ge> v then nodes[unat i := None] else nodes,
                              Some c, len)))))"

text \<open>The inner loop \<^verbatim>\<open>while(i < max_i && len >= intervals[i+1])\<close>; it returns
  \<open>nodes\<close>, \<open>acc\<close>, \<open>len\<close> and \<open>i\<close> as the loop leaves them.\<close>

function find_slot ::
    "size_t list \<Rightarrow> size_t \<Rightarrow> handle list \<Rightarrow> handle \<Rightarrow> size_t \<Rightarrow> size_t
       \<Rightarrow> error + (handle list \<times> handle \<times> size_t \<times> size_t)" where
  "find_slot intervals max_i nodes acc len i =
     (if i < max_i then
        (case vec_at intervals (i + 1) of
           Inl e \<Rightarrow> Inl e
         | Inr v \<Rightarrow>
             if len \<ge> v then
               (case vec_at nodes i of
                  Inl e \<Rightarrow> Inl e
                | Inr None \<Rightarrow> find_slot intervals max_i nodes acc len (i + 1)
                | Inr (Some n) \<Rightarrow>
                    (case concat_slot intervals nodes i acc of
                       Inl e \<Rightarrow> Inl e
                     | Inr (nodes', acc', len') \<Rightarrow>
                         find_slot intervals max_i nodes' acc' len' (i + 1)))
             else Inr (nodes, acc, len, i))
      else Inr (nodes, acc, len, i))"
  by pat_completeness auto
termination
proof (relation "measure (\<lambda>(intervals, max_i, nodes, acc, len, i). unat max_i - unat i)")
  show "wf (measure (\<lambda>(intervals, max_i, nodes, acc, len, i). unat max_i - unat i))" by simp
next
  fix intervals :: "size_t list" and max_i :: size_t and nodes :: "handle list"
    and acc :: handle and len i :: size_t
  assume "i < max_i"
  then have lt: "unat i < unat max_i" by (simp add: word_less_nat_alt)
  have "unat max_i < 2 ^ LENGTH(64)" by (rule unsigned_less)
  with lt have "unat i + unat (1 :: size_t) < 2 ^ LENGTH(64)" by simp
  then have "unat (i + 1) = unat i + 1" using unat_add_lem[of i 1] by simp
  with lt show "((intervals, max_i, nodes, acc, len, i + 1), intervals, max_i, nodes, acc, len, i)
       \<in> measure (\<lambda>(intervals, max_i, nodes, acc, len, i). unat max_i - unat i)"
    by simp
next
  fix intervals :: "size_t list" and max_i :: size_t and nodes nodes' :: "handle list"
    and acc acc' :: handle and len len' i :: size_t
  assume "i < max_i"
  then have lt: "unat i < unat max_i" by (simp add: word_less_nat_alt)
  have "unat max_i < 2 ^ LENGTH(64)" by (rule unsigned_less)
  with lt have "unat i + unat (1 :: size_t) < 2 ^ LENGTH(64)" by simp
  then have "unat (i + 1) = unat i + 1" using unat_add_lem[of i 1] by simp
  with lt show "((intervals, max_i, nodes', acc', len', i + 1), intervals, max_i, nodes, acc, len, i)
       \<in> measure (\<lambda>(intervals, max_i, nodes, acc, len, i). unat max_i - unat i)"
    by simp
qed

declare find_slot.simps [simp del]

text \<open>The loop \<^verbatim>\<open>while(!inserted)\<close> for one leaf; it returns \<open>nodes\<close> and
  \<open>currMaxInterval\<close>. \<^verbatim>\<open>nodes[i].swap(acc)\<close> on an empty slot stores \<open>acc\<close> there.\<close>

partial_function (option) place_leaf ::
    "size_t list \<Rightarrow> size_t \<Rightarrow> handle list \<Rightarrow> handle \<Rightarrow> size_t \<Rightarrow> size_t \<Rightarrow> size_t
       \<Rightarrow> (error + (handle list \<times> size_t)) option" where
  "place_leaf intervals max_i nodes acc len i currMaxInterval =
     (case find_slot intervals max_i nodes acc len i of
        Inl e \<Rightarrow> Some (Inl e)
      | Inr (nodes1, acc1, len1, i1) \<Rightarrow>
          (case vec_at nodes1 i1 of
             Inl e \<Rightarrow> Some (Inl e)
           | Inr None \<Rightarrow>
               Some (Inr (nodes1[unat i1 := acc1],
                          if i1 > currMaxInterval then i1 else currMaxInterval))
           | Inr (Some n) \<Rightarrow>
               (case concat_slot intervals nodes1 i1 acc1 of
                  Inl e \<Rightarrow> Some (Inl e)
                | Inr (nodes2, acc2, len2) \<Rightarrow>
                    place_leaf intervals max_i nodes2 acc2 len2 i1 currMaxInterval)))"

declare place_leaf.simps [code]

text \<open>The loop \<^verbatim>\<open>for (auto& leaf : leaves)\<close>: empty leaves are ignored.\<close>

fun place_leaves ::
    "size_t list \<Rightarrow> size_t \<Rightarrow> rope_node list \<Rightarrow> handle list \<Rightarrow> size_t
       \<Rightarrow> (error + (handle list \<times> size_t)) option" where
  "place_leaves intervals max_i [] nodes currMaxInterval = Some (Inr (nodes, currMaxInterval))"
| "place_leaves intervals max_i (lf # leaves) nodes currMaxInterval =
     (let len = getLength lf in
      if len > 0 then
        (case place_leaf intervals max_i nodes (Some (copy_node lf)) len 0 currMaxInterval of
           None \<Rightarrow> None
         | Some (Inl e) \<Rightarrow> Some (Inl e)
         | Some (Inr (nodes', currMaxInterval')) \<Rightarrow>
             place_leaves intervals max_i leaves nodes' currMaxInterval')
      else place_leaves intervals max_i leaves nodes currMaxInterval)"

text \<open>The final loop \<^verbatim>\<open>for(int idx = currMaxInterval; idx >= 0; idx--)\<close>: one
  iteration, and the iterations from \<open>idx\<close> down to 0.\<close>

definition join_slot :: "handle list \<Rightarrow> handle \<Rightarrow> nat \<Rightarrow> error + handle" where
  "join_slot nodes acc idx =
     (case vec_at nodes (of_nat idx) of
        Inl e \<Rightarrow> Inl e
      | Inr None \<Rightarrow> Inr acc
      | Inr (Some n) \<Rightarrow>
          (case concat_node acc (Some (copy_node n)) of
             Inl e \<Rightarrow> Inl e
           | Inr c \<Rightarrow> Inr (Some c)))"

fun join_slots :: "handle list \<Rightarrow> handle \<Rightarrow> nat \<Rightarrow> error + handle" where
  "join_slots nodes acc 0 = join_slot nodes acc 0"
| "join_slots nodes acc (Suc idx) =
     (case join_slot nodes acc (Suc idx) of
        Inl e \<Rightarrow> Inl e
      | Inr acc' \<Rightarrow> join_slots nodes acc' idx)"

text \<open>\<^verbatim>\<open>rope::balance\<close>. Nothing is stored into \<^verbatim>\<open>root_\<close> before the last statement.
  \<open>None\<close>: one of the loops above does not return.\<close>

definition balance :: "rope \<Rightarrow> mutation option" where
  "balance this =
     (case isBalanced this of
        None \<Rightarrow> None
      | Some True \<Rightarrow> Some (None, this)
      | Some False \<Rightarrow>
          (case buildFibList (length_rope this) of
             None \<Rightarrow> None
           | Some intervals \<Rightarrow>
               (case root this of
                  None \<Rightarrow> Some (Some Undefined, this)
                | Some n \<Rightarrow>
                    (let nodes = replicate (length intervals) None;
                         leaves = getLeaves n;
                         max_i = of_nat (length intervals) - 1
                     in case place_leaves intervals max_i leaves nodes 0 of
                          None \<Rightarrow> None
                        | Some (Inl e) \<Rightarrow> Some (Some e, this)
                        | Some (Inr (nodes', currMaxInterval)) \<Rightarrow>
                            (case vec_at nodes' currMaxInterval of
                               Inl e \<Rightarrow> Some (Some e, this)
                             | Inr acc \<Rightarrow>
                                 (let idx = (ucast currMaxInterval :: cint) in
                                  if 0 \<le>s idx then
                                    (case join_slots (nodes'[unat currMaxInterval := None]) acc
                                            (nat (sint idx)) of
                                       Inl e \<Rightarrow> Some (Some e, this)
                                     | Inr acc' \<Rightarrow> Some (None, \<lparr>root = acc'\<rparr>))
                                  else Some (None, \<lparr>root = acc\<rparr>)))))))"

subsection \<open>Rope objects\<close>

text \<open>
  The ropes of a program are objects at addresses; \<open>this\<close> and the rope argument of a
  member function are addresses, and a call changes the object at \<open>this\<close> only (a rope
  owns its tree exclusively). \<^verbatim>\<open>rope::operator=\<close> compares the two addresses
  (\<^verbatim>\<open>this == &rhs\<close>); otherwise it resets the root and clones \<^verbatim>\<open>*rhs.root_\<close>.
\<close>

type_synonym store = "nat \<Rightarrow> rope"

definition op_assign :: "store \<Rightarrow> nat \<Rightarrow> nat \<Rightarrow> error option \<times> store" where
  "op_assign st this rhs =
     (if this = rhs then (None, st)
      else (case root (st rhs) of
              None \<Rightarrow> (Some Undefined, st(this := \<lparr>root = None\<rparr>))
            | Some n \<Rightarrow> (None, st(this := \<lparr>root = Some (copy_node n)\<rparr>))))"

definition op_insert :: "store \<Rightarrow> nat \<Rightarrow> size_t \<Rightarrow> nat \<Rightarrow> error option \<times> store" where
  "op_insert st this i r =
     (case insert_rope (st this) i (st r) of (e, x) \<Rightarrow> (e, st(this := x)))"

definition op_insert_string :: "store \<Rightarrow> nat \<Rightarrow> size_t \<Rightarrow> string \<Rightarrow> error option \<times> store" where
  "op_insert_string st this i str =
     (case insert_string (st this) i str of (e, x) \<Rightarrow> (e, st(this := x)))"

definition op_append :: "store \<Rightarrow> nat \<Rightarrow> nat \<Rightarrow> error option \<times> store" where
  "op_append st this r =
     (case append_rope (st this) (st r) of (e, x) \<Rightarrow> (e, st(this := x)))"

definition op_append_string :: "store \<Rightarrow> nat \<Rightarrow> string \<Rightarrow> error option \<times> store" where
  "op_append_string st this str =
     (case append_string (st this) str of (e, x) \<Rightarrow> (e, st(this := x)))"

definition op_rdelete :: "store \<Rightarrow> nat \<Rightarrow> size_t \<Rightarrow> size_t \<Rightarrow> error option \<times> store" where
  "op_rdelete st this start len =
     (case rdelete (st this) start len of (e, x) \<Rightarrow> (e, st(this := x)))"

section \<open>Well-formed trees\<close>

text \<open>The string of a handle: \<^verbatim>\<open>treeToString\<close> and \<^verbatim>\<open>toString\<close> read a null handle as
  the empty string.\<close>

fun handle_string :: "handle \<Rightarrow> string" where
  "handle_string None = []"
| "handle_string (Some n) = treeToString n"

text \<open>
  \<open>wf\<close>: a leaf's weight is the length of its fragment; a node that is not a leaf has a
  left child, an empty fragment and the length of the left subtree's string as weight
  (lengths as \<^verbatim>\<open>size_t\<close> values). The right child of a node that is not a leaf may be
  absent: \<^verbatim>\<open>splitAt\<close> leaves such nodes.
\<close>

fun wf :: "rope_node \<Rightarrow> bool" where
  "wf (rope_node w l r frag) =
     (if l = None \<and> r = None then w = of_nat (length frag)
      else (case l of None \<Rightarrow> False
            | Some l' \<Rightarrow> wf l' \<and> w = of_nat (length (treeToString l')))
         \<and> (case r of None \<Rightarrow> True | Some r' \<Rightarrow> wf r')
         \<and> frag = [])"

fun handle_wf :: "handle \<Rightarrow> bool" where
  "handle_wf None = True"
| "handle_wf (Some n) = wf n"

text \<open>\<open>rspine\<close>: the path from the node to its rightmost descendant ends in a leaf, that
  is, no node on it lacks its right child.\<close>

fun rspine :: "rope_node \<Rightarrow> bool" where
  "rspine (rope_node w l r frag) =
     (if l = None \<and> r = None then True
      else (case r of None \<Rightarrow> False | Some r' \<Rightarrow> rspine r'))"

text \<open>The invariant of a rope: the root is present, well formed, and its right spine
  ends in a leaf.\<close>

definition rope_inv :: "rope \<Rightarrow> bool" where
  "rope_inv r \<longleftrightarrow> (case root r of None \<Rightarrow> False | Some n \<Rightarrow> wf n \<and> rspine n)"

text \<open>The invariant that the header states for every node: a node has no child (a leaf,
  whose weight is the length of its fragment), or both children, an empty fragment and
  the length of the left subtree's string as weight.\<close>

fun header_inv :: "rope_node \<Rightarrow> bool" where
  "header_inv (rope_node w l r frag) =
     (if l = None \<and> r = None then w = of_nat (length frag)
      else (case l of None \<Rightarrow> False
            | Some l' \<Rightarrow> header_inv l' \<and> w = of_nat (length (treeToString l')))
         \<and> (case r of None \<Rightarrow> False | Some r' \<Rightarrow> header_inv r')
         \<and> frag = [])"

text \<open>A string fits the address space: its length is a \<^verbatim>\<open>size_t\<close> value. Every string
  and every tree in memory does.\<close>

definition fits :: "string \<Rightarrow> bool" where
  "fits s \<longleftrightarrow> length s < 2 ^ 64"

section \<open>Example ropes\<close>

text \<open>\<open>seven\<close> is the rope that \<^verbatim>\<open>rope("a")\<close> becomes by appending \<^verbatim>\<open>"b"\<close>, ..., \<^verbatim>\<open>"g"\<close> one
  after the other; \<open>seven_balanced\<close> is the tree that \<^verbatim>\<open>balance\<close> builds from it.\<close>

definition seven :: rope where
  "seven = \<lparr>root = Some
     (rope_node 6
       (Some
         (rope_node 5
           (Some
             (rope_node 4
               (Some
                 (rope_node 3
                   (Some
                     (rope_node 2
                       (Some
                         (rope_node 1 (Some (rope_node 1 None None ''a''))
                           (Some (rope_node 1 None None ''b'')) []))
                       (Some (rope_node 1 None None ''c'')) []))
                   (Some (rope_node 1 None None ''d'')) []))
               (Some (rope_node 1 None None ''e'')) []))
           (Some (rope_node 1 None None ''f'')) []))
       (Some (rope_node 1 None None ''g'')) [])\<rparr>"

definition seven_balanced :: rope where
  "seven_balanced = \<lparr>root =
      Some
       (rope_node 6
         (Some
           (rope_node 4
             (Some
               (rope_node 2
                 (Some
                   (rope_node 1 (Some (rope_node 1 None None ''a''))
                     (Some (rope_node 1 None None ''b'')) []))
                 (Some
                   (rope_node 1 (Some (rope_node 1 None None ''c''))
                     (Some (rope_node 1 None None ''d'')) []))
                 []))
             (Some
               (rope_node 1 (Some (rope_node 1 None None ''e''))
                 (Some (rope_node 1 None None ''f'')) []))
             []))
         (Some (rope_node 1 None None ''g'')) [])\<rparr>"

text \<open>\<open>abcdef\<close> is the rope of the test \<^verbatim>\<open>BALANCE\<close>: \<^verbatim>\<open>rope("f")\<close> with the ropes \<^verbatim>\<open>"e"\<close>,
  ..., \<^verbatim>\<open>"a"\<close> inserted at position 0 one after the other.\<close>

definition abcdef :: rope where
  "abcdef = snd (insert_rope (snd (insert_rope (snd (insert_rope (snd (insert_rope
     (snd (insert_rope (rope_of_string ''f'') 0 (rope_of_string ''e''))) 0 (rope_of_string ''d'')))
       0 (rope_of_string ''c''))) 0 (rope_of_string ''b''))) 0 (rope_of_string ''a''))"

section \<open>Ropes that the operations can build\<close>

text \<open>A handle is good when it is null or its tree is well formed with a right spine
  that ends in a leaf.\<close>

fun good :: "handle \<Rightarrow> bool" where
  "good None = True"
| "good (Some n) = (wf n \<and> rspine n)"

text \<open>What a returning run of the loop for one leaf guarantees: if the slots and \<open>acc\<close>
  are good on entry and the slot \<open>currMaxInterval\<close> is occupied or not below \<open>i\<close>, then the
  slots are good on exit and the slot of the new \<open>currMaxInterval\<close> is occupied.\<close>

definition place_post ::
    "handle list \<Rightarrow> handle \<Rightarrow> size_t \<Rightarrow> size_t \<Rightarrow> error + handle list \<times> size_t \<Rightarrow> bool" where
  "place_post nodes acc i cm y \<longleftrightarrow>
     (\<forall>nodes'' cm''. y = Inr (nodes'', cm'') \<longrightarrow> list_all good nodes \<longrightarrow> good acc \<longrightarrow> acc \<noteq> None
         \<longrightarrow> (cm \<le> i \<or> (unat cm < length nodes \<and> nodes ! unat cm \<noteq> None))
         \<longrightarrow> (list_all good nodes'' \<and> length nodes'' = length nodes
              \<and> unat cm'' < length nodes'' \<and> nodes'' ! unat cm'' \<noteq> None))"

text \<open>
  The ropes that a program can have: built by a constructor, and from those by a copy,
  an assignment, or a call of \<^verbatim>\<open>insert\<close>, \<^verbatim>\<open>append\<close>, \<^verbatim>\<open>rdelete\<close> or \<^verbatim>\<open>balance\<close> that returns
  without an exception. Strings and trees in memory fit the address space. (The string
  overloads of \<^verbatim>\<open>insert\<close> and \<^verbatim>\<open>append\<close> are the rope overloads applied to
  \<open>rope_of_string str\<close>.)
\<close>

inductive reachable :: "rope \<Rightarrow> bool" where
  reach_string: "fits str \<Longrightarrow> reachable (rope_of_string str)"
| reach_copy: "reachable r \<Longrightarrow> rope_copy r = Inr r' \<Longrightarrow> reachable r'"
| reach_assign: "reachable rhs \<Longrightarrow> root rhs = Some n \<Longrightarrow> reachable \<lparr>root = Some (copy_node n)\<rparr>"
| reach_insert:
    "reachable this \<Longrightarrow> reachable r \<Longrightarrow> insert_rope this i r = (None, this')
       \<Longrightarrow> fits (toString this') \<Longrightarrow> reachable this'"
| reach_append:
    "reachable this \<Longrightarrow> reachable r \<Longrightarrow> append_rope this r = (None, this')
       \<Longrightarrow> fits (toString this') \<Longrightarrow> reachable this'"
| reach_rdelete:
    "reachable this \<Longrightarrow> rdelete this start len = (None, this') \<Longrightarrow> reachable this'"
| reach_balance:
    "reachable this \<Longrightarrow> balance this = Some (None, this') \<Longrightarrow> fits (toString this')
       \<Longrightarrow> reachable this'"

section \<open>Nodes in a heap\<close>

text \<open>
  The trees above are values, so two handles can never reach the same node. To say which
  nodes a rope reaches, and that \<^verbatim>\<open>operator=\<close> builds new ones, the nodes are placed in
  a heap: a list of cells, one per \<^verbatim>\<open>rope_node\<close> object, where the address of a node
  is its index in the list and a \<^verbatim>\<open>std::unique_ptr<rope_node>\<close> is an address or null.
  A cell has the four fields of the class. \<^verbatim>\<open>make_unique<rope_node>(...)\<close> appends a
  cell and returns its address. Destruction is not modelled: a node that is released
  stays in the list and no pointer reaches it afterwards. A \<^verbatim>\<open>rope_node\<close> held by
  value in a local variable (\<open>newRoot\<close> in the copy constructor of \<^verbatim>\<open>rope\<close>) is a cell
  as well.
\<close>

record cell =
  cweight :: size_t
  cleft :: "nat option"
  cright :: "nat option"
  cfragment :: string

type_synonym heap = "cell list"

definition new_cell :: "heap \<Rightarrow> cell \<Rightarrow> heap \<times> nat" where
  "new_cell h c = (h @ [c], length h)"

text \<open>Assignments to the fields of the node at address \<open>p\<close>.\<close>

definition set_weight :: "heap \<Rightarrow> nat \<Rightarrow> size_t \<Rightarrow> heap" where
  "set_weight h p w = h[p := (h ! p)\<lparr>cweight := w\<rparr>]"

definition set_left :: "heap \<Rightarrow> nat \<Rightarrow> nat option \<Rightarrow> heap" where
  "set_left h p l = h[p := (h ! p)\<lparr>cleft := l\<rparr>]"

definition set_right :: "heap \<Rightarrow> nat \<Rightarrow> nat option \<Rightarrow> heap" where
  "set_right h p r = h[p := (h ! p)\<lparr>cright := r\<rparr>]"

text \<open>\<^verbatim>\<open>rope_node::isLeaf\<close>, \<^verbatim>\<open>rope_node::getLength\<close> and \<^verbatim>\<open>rope_node::treeToString\<close> on the
  node at address \<open>p\<close>. An address outside the heap is a dangling pointer
  (\<open>Undefined\<close>). The recursion follows the pointers of the heap, so on a heap with a
  cycle it does not return (\<open>None\<close>).\<close>

definition h_isLeaf :: "heap \<Rightarrow> nat \<Rightarrow> bool" where
  "h_isLeaf h p \<longleftrightarrow> cleft (h ! p) = None \<and> cright (h ! p) = None"

partial_function (option) h_getLength :: "heap \<Rightarrow> nat \<Rightarrow> (error + size_t) option" where
  "h_getLength h p =
     (if p < length h then
        (if h_isLeaf h p then Some (Inr (cweight (h ! p)))
         else (case cright (h ! p) of
                 None \<Rightarrow> Some (Inr (cweight (h ! p) + 0))
               | Some pr \<Rightarrow>
                   Option.bind (h_getLength h pr)
                     (\<lambda>res. case res of
                        Inl e \<Rightarrow> Some (Inl e)
                      | Inr tmp \<Rightarrow> Some (Inr (cweight (h ! p) + tmp)))))
      else Some (Inl Undefined))"

declare h_getLength.simps [code]

partial_function (option) h_treeToString :: "heap \<Rightarrow> nat \<Rightarrow> (error + string) option" where
  "h_treeToString h p =
     (if p < length h then
        (if h_isLeaf h p then Some (Inr (cfragment (h ! p)))
         else
           Option.bind
             (case cleft (h ! p) of
                None \<Rightarrow> Some (Inr [])
              | Some pl \<Rightarrow> h_treeToString h pl)
             (\<lambda>resl. case resl of
                Inl e \<Rightarrow> Some (Inl e)
              | Inr lResult \<Rightarrow>
                  Option.bind
                    (case cright (h ! p) of
                       None \<Rightarrow> Some (Inr [])
                     | Some pr \<Rightarrow> h_treeToString h pr)
                    (\<lambda>resr. case resr of
                       Inl e \<Rightarrow> Some (Inl e)
                     | Inr rResult \<Rightarrow> Some (Inr (lResult @ rResult)))))
      else Some (Inl Undefined))"

declare h_treeToString.simps [code]

text \<open>\<^verbatim>\<open>make_unique<rope_node>(str)\<close> and \<^verbatim>\<open>make_unique<rope_node>(move(l), move(r))\<close>. The
  second constructor calls \<^verbatim>\<open>left_->getLength()\<close> on the left argument, null or not.\<close>

definition h_leaf :: "heap \<Rightarrow> string \<Rightarrow> heap \<times> nat" where
  "h_leaf h str =
     new_cell h \<lparr>cweight = of_nat (length str), cleft = None, cright = None, cfragment = str\<rparr>"

definition h_concat :: "heap \<Rightarrow> nat option \<Rightarrow> nat option \<Rightarrow> (heap \<times> (error + nat)) option" where
  "h_concat h l r =
     (case l of
        None \<Rightarrow> Some (h, Inl Undefined)
      | Some pl \<Rightarrow>
          Option.bind (h_getLength h pl)
            (\<lambda>res. case res of
               Inl e \<Rightarrow> Some (h, Inl e)
             | Inr w \<Rightarrow>
                 (case new_cell h \<lparr>cweight = w, cleft = Some pl, cright = r, cfragment = []\<rparr> of
                    (h', p) \<Rightarrow> Some (h', Inr p))))"

text \<open>
  \<^verbatim>\<open>make_unique<rope_node>(*p)\<close>, the copy constructor: the new node takes the weight and
  the fragment, and for each child that is not null a clone of it, made by the same
  constructor, the left one first. The result is the address of the new node.
\<close>

partial_function (option) h_copy :: "heap \<Rightarrow> nat \<Rightarrow> (heap \<times> (error + nat)) option" where
  "h_copy h p =
     (if p < length h then
        (case new_cell h \<lparr>cweight = cweight (h ! p), cleft = None, cright = None,
                           cfragment = cfragment (h ! p)\<rparr> of
           (h0, a) \<Rightarrow>
             Option.bind
               (case cleft (h ! p) of
                  None \<Rightarrow> Some (h0, Inr a)
                | Some tmpLeft \<Rightarrow>
                    Option.bind (h_copy h0 tmpLeft)
                      (\<lambda>(h1, res). case res of
                         Inl e \<Rightarrow> Some (h1, Inl e)
                       | Inr l' \<Rightarrow> Some (set_left h1 a (Some l'), Inr a)))
               (\<lambda>(h1, res). case res of
                  Inl e \<Rightarrow> Some (h1, Inl e)
                | Inr _ \<Rightarrow>
                    (case cright (h ! p) of
                       None \<Rightarrow> Some (h1, Inr a)
                     | Some tmpRight \<Rightarrow>
                         Option.bind (h_copy h1 tmpRight)
                           (\<lambda>(h2, res). case res of
                              Inl e \<Rightarrow> Some (h2, Inl e)
                            | Inr r' \<Rightarrow> Some (set_right h2 a (Some r'), Inr a)))))
      else Some (h, Inl Undefined))"

declare h_copy.simps [code]

text \<open>
  \<^verbatim>\<open>splitAt(handle node, size_t index)\<close>. A leaf is split into two new leaves. An
  internal node loses its right child to \<open>oldRight\<close>; for \<open>index < w\<close> its weight
  becomes \<open>index\<close>, its left child is moved into the recursive call and replaced by the
  first part of the result, the node itself is the first result, and a new node over
  the second part and \<open>oldRight\<close> is the second; for \<open>w < index\<close> the recursive call
  takes \<open>oldRight\<close>, and the node, with the first part as its right child, is the first
  result; for \<open>index = w\<close> the two children are the results.
\<close>

partial_function (option) h_splitAt ::
    "heap \<Rightarrow> nat option \<Rightarrow> size_t \<Rightarrow> (heap \<times> (error + nat option \<times> nat option)) option" where
  "h_splitAt h node index =
     (case node of
        None \<Rightarrow> Some (h, Inl Undefined)
      | Some p \<Rightarrow>
          if p < length h then
            (if h_isLeaf h p then
               (case substr (cfragment (h ! p)) 0 index of
                  Inl e \<Rightarrow> Some (h, Inl e)
                | Inr a \<Rightarrow>
                    (case h_leaf h a of
                       (h1, pa) \<Rightarrow>
                         (case substr (cfragment (h ! p)) index (cweight (h ! p) - index) of
                            Inl e \<Rightarrow> Some (h1, Inl e)
                          | Inr b \<Rightarrow>
                              (case h_leaf h1 b of
                                 (h2, pb) \<Rightarrow> Some (h2, Inr (Some pa, Some pb))))))
             else
               if index < cweight (h ! p) then
                 Option.bind
                   (h_splitAt (set_left (set_weight (set_right h p None) p index) p None)
                      (cleft (h ! p)) index)
                   (\<lambda>(h1, res). case res of
                      Inl e \<Rightarrow> Some (h1, Inl e)
                    | Inr (ll, lr) \<Rightarrow>
                        Option.bind (h_concat (set_left h1 p ll) lr (cright (h ! p)))
                          (\<lambda>(h2, res). case res of
                             Inl e \<Rightarrow> Some (h2, Inl e)
                           | Inr c \<Rightarrow> Some (h2, Inr (Some p, Some c))))
               else if cweight (h ! p) < index then
                 Option.bind
                   (h_splitAt (set_right h p None) (cright (h ! p)) (index - cweight (h ! p)))
                   (\<lambda>(h1, res). case res of
                      Inl e \<Rightarrow> Some (h1, Inl e)
                    | Inr (rl, rr) \<Rightarrow> Some (set_right h1 p rl, Inr (Some p, rr)))
               else
                 Some (set_left (set_right h p None) p None,
                       Inr (cleft (h ! p), cright (h ! p))))
          else Some (h, Inl Undefined))"

declare h_splitAt.simps [code]

subsection \<open>Ropes in the heap\<close>

text \<open>The member functions of \<^verbatim>\<open>rope\<close>, on the value of \<^verbatim>\<open>root_\<close> (\<open>this\<close>) and, where
  there is a rope argument, on the value of its \<^verbatim>\<open>root_\<close> (\<open>r\<close>), which is read before
  the root of \<open>this\<close> is moved. \<^verbatim>\<open>rope::length\<close> and \<^verbatim>\<open>rope::toString\<close>:\<close>

definition h_length :: "heap \<Rightarrow> nat option \<Rightarrow> (error + size_t) option" where
  "h_length h root_p = (case root_p of None \<Rightarrow> Some (Inr 0) | Some p \<Rightarrow> h_getLength h p)"

definition h_toString :: "heap \<Rightarrow> nat option \<Rightarrow> (error + string) option" where
  "h_toString h root_p = (case root_p of None \<Rightarrow> Some (Inr []) | Some p \<Rightarrow> h_treeToString h p)"

text \<open>\<^verbatim>\<open>rope(const rope& r)\<close>: \<^verbatim>\<open>*r.root_\<close> is cloned into the local \<open>newRoot\<close>, and
  \<open>newRoot\<close> is cloned into the node of the new root.\<close>

definition h_rope_copy :: "heap \<Rightarrow> nat option \<Rightarrow> (heap \<times> (error + nat)) option" where
  "h_rope_copy h r =
     (case r of
        None \<Rightarrow> Some (h, Inl Undefined)
      | Some p \<Rightarrow>
          Option.bind (h_copy h p)
            (\<lambda>(h1, res). case res of
               Inl e \<Rightarrow> Some (h1, Inl e)
             | Inr newRoot \<Rightarrow> h_copy h1 newRoot))"

text \<open>A mutator returns the heap, the exception it ended with, if any, and the
  \<^verbatim>\<open>root_\<close> of \<open>this\<close> as the call leaves it.\<close>

type_synonym h_mutation = "(heap \<times> error option \<times> nat option) option"

text \<open>\<^verbatim>\<open>rope::insert(size_t, const rope&)\<close>, and \<^verbatim>\<open>rope::insert(size_t, const string&)\<close>,
  which builds the temporary \<^verbatim>\<open>rope(str)\<close> first.\<close>

definition h_insert_rope :: "heap \<Rightarrow> nat option \<Rightarrow> size_t \<Rightarrow> nat option \<Rightarrow> h_mutation" where
  "h_insert_rope h this i r =
     Option.bind (h_length h this)
       (\<lambda>len. case len of
          Inl e \<Rightarrow> Some (h, Some e, this)
        | Inr n \<Rightarrow>
            if n < i then Some (h, Some InvalidArgument, this)
            else
              Option.bind (h_rope_copy h r)
                (\<lambda>(h1, res). case res of
                   Inl e \<Rightarrow> Some (h1, Some e, this)
                 | Inr tmp \<Rightarrow>
                     Option.bind (h_splitAt h1 this i)
                       (\<lambda>(h2, res). case res of
                          Inl e \<Rightarrow> Some (h2, Some e, None)
                        | Inr (first, second) \<Rightarrow>
                            Option.bind (h_concat h2 first (Some tmp))
                              (\<lambda>(h3, res). case res of
                                 Inl e \<Rightarrow> Some (h3, Some e, None)
                               | Inr tmpConcat \<Rightarrow>
                                   Option.bind (h_concat h3 (Some tmpConcat) second)
                                     (\<lambda>(h4, res). case res of
                                        Inl e \<Rightarrow> Some (h4, Some e, None)
                                      | Inr n \<Rightarrow> Some (h4, None, Some n))))))"

definition h_insert_string :: "heap \<Rightarrow> nat option \<Rightarrow> size_t \<Rightarrow> string \<Rightarrow> h_mutation" where
  "h_insert_string h this i str =
     (case h_leaf h str of (h0, p) \<Rightarrow> h_insert_rope h0 this i (Some p))"

text \<open>\<^verbatim>\<open>rope::append(const string&)\<close> and \<^verbatim>\<open>rope::append(const rope&)\<close>.\<close>

definition h_append_string :: "heap \<Rightarrow> nat option \<Rightarrow> string \<Rightarrow> h_mutation" where
  "h_append_string h this str =
     (case h_leaf h str of
        (h0, tmp) \<Rightarrow>
          Option.bind (h_concat h0 this (Some tmp))
            (\<lambda>(h1, res). case res of
               Inl e \<Rightarrow> Some (h1, Some e, None)
             | Inr n \<Rightarrow> Some (h1, None, Some n)))"

definition h_append_rope :: "heap \<Rightarrow> nat option \<Rightarrow> nat option \<Rightarrow> h_mutation" where
  "h_append_rope h this r =
     Option.bind (h_rope_copy h r)
       (\<lambda>(h0, res). case res of
          Inl e \<Rightarrow> Some (h0, Some e, this)
        | Inr tmp \<Rightarrow>
            Option.bind (h_concat h0 this (Some tmp))
              (\<lambda>(h1, res). case res of
                 Inl e \<Rightarrow> Some (h1, Some e, None)
               | Inr n \<Rightarrow> Some (h1, None, Some n)))"

text \<open>\<^verbatim>\<open>rope::rdelete\<close>. The middle part, \<^verbatim>\<open>secondSplit.first\<close>, is released.\<close>

definition h_rdelete :: "heap \<Rightarrow> nat option \<Rightarrow> size_t \<Rightarrow> size_t \<Rightarrow> h_mutation" where
  "h_rdelete h this start len =
     Option.bind (h_length h this)
       (\<lambda>res. case res of
          Inl e \<Rightarrow> Some (h, Some e, this)
        | Inr actualLength \<Rightarrow>
            if start > actualLength \<or> start + len > actualLength
            then Some (h, Some InvalidArgument, this)
            else
              Option.bind (h_splitAt h this start)
                (\<lambda>(h1, res). case res of
                   Inl e \<Rightarrow> Some (h1, Some e, None)
                 | Inr (first1, second1) \<Rightarrow>
                     Option.bind (h_splitAt h1 second1 len)
                       (\<lambda>(h2, res). case res of
                          Inl e \<Rightarrow> Some (h2, Some e, None)
                        | Inr (first2, second2) \<Rightarrow>
                            Option.bind (h_concat h2 first1 second2)
                              (\<lambda>(h3, res). case res of
                                 Inl e \<Rightarrow> Some (h3, Some e, None)
                               | Inr n \<Rightarrow> Some (h3, None, Some n)))))"

text \<open>
  The state of a program: the heap of nodes, and for every rope object, by its address,
  the value of its \<^verbatim>\<open>root_\<close>. A member function called on the object at \<open>this\<close> stores
  the new root there.
\<close>

record hstate =
  heap :: heap
  roots :: "nat \<Rightarrow> nat option"

definition method_call :: "hstate \<Rightarrow> nat \<Rightarrow> h_mutation \<Rightarrow> (error option \<times> hstate) option" where
  "method_call st this res =
     (case res of
        None \<Rightarrow> None
      | Some (h', e, p') \<Rightarrow> Some (e, \<lparr>heap = h', roots = (roots st)(this := p')\<rparr>))"

text \<open>\<^verbatim>\<open>rope(const string&)\<close> constructing the object at \<open>this\<close>.\<close>

definition hs_rope_of_string :: "hstate \<Rightarrow> nat \<Rightarrow> string \<Rightarrow> hstate" where
  "hs_rope_of_string st this str =
     (case h_leaf (heap st) str of
        (h', p) \<Rightarrow> \<lparr>heap = h', roots = (roots st)(this := Some p)\<rparr>)"

definition hs_toString :: "hstate \<Rightarrow> nat \<Rightarrow> (error + string) option" where
  "hs_toString st a = h_toString (heap st) (roots st a)"

definition hs_insert :: "hstate \<Rightarrow> nat \<Rightarrow> size_t \<Rightarrow> nat \<Rightarrow> (error option \<times> hstate) option" where
  "hs_insert st this i r =
     method_call st this (h_insert_rope (heap st) (roots st this) i (roots st r))"

definition hs_insert_string ::
    "hstate \<Rightarrow> nat \<Rightarrow> size_t \<Rightarrow> string \<Rightarrow> (error option \<times> hstate) option" where
  "hs_insert_string st this i str =
     method_call st this (h_insert_string (heap st) (roots st this) i str)"

definition hs_append :: "hstate \<Rightarrow> nat \<Rightarrow> nat \<Rightarrow> (error option \<times> hstate) option" where
  "hs_append st this r =
     method_call st this (h_append_rope (heap st) (roots st this) (roots st r))"

definition hs_append_string :: "hstate \<Rightarrow> nat \<Rightarrow> string \<Rightarrow> (error option \<times> hstate) option" where
  "hs_append_string st this str =
     method_call st this (h_append_string (heap st) (roots st this) str)"

definition hs_rdelete ::
    "hstate \<Rightarrow> nat \<Rightarrow> size_t \<Rightarrow> size_t \<Rightarrow> (error option \<times> hstate) option" where
  "hs_rdelete st this start len =
     method_call st this (h_rdelete (heap st) (roots st this) start len)"

text \<open>
  \<^verbatim>\<open>rope::operator=\<close>: nothing happens when \<^verbatim>\<open>this == &rhs\<close>. Otherwise the root is reset,
  \<^verbatim>\<open>*(rhs.root_.get())\<close> is read, null or not, and its clone becomes the root.
\<close>

definition hs_assign :: "hstate \<Rightarrow> nat \<Rightarrow> nat \<Rightarrow> (error option \<times> hstate) option" where
  "hs_assign st this rhs =
     (if this = rhs then Some (None, st)
      else
        (case roots st rhs of
           None \<Rightarrow> Some (Some Undefined, st\<lparr>roots := (roots st)(this := None)\<rparr>)
         | Some p \<Rightarrow>
             Option.bind (h_copy (heap st) p)
               (\<lambda>(h', res). case res of
                  Inl e \<Rightarrow> Some (Some e, \<lparr>heap = h', roots = (roots st)(this := None)\<rparr>)
                | Inr q \<Rightarrow> Some (None, \<lparr>heap = h', roots = (roots st)(this := Some q)\<rparr>))))"

subsection \<open>Trees that the heap represents\<close>

text \<open>
  \<open>rep h p t A\<close>: in the heap \<open>h\<close> the pointer \<open>p\<close> is the root of a tree with the fields
  and the shape of the handle \<open>t\<close>, and \<open>A\<close> is the set of the addresses of its nodes.
  No node occurs twice in it: the node itself is in neither subtree, and the subtrees
  share no address.
\<close>

inductive rep :: "heap \<Rightarrow> nat option \<Rightarrow> handle \<Rightarrow> nat set \<Rightarrow> bool" where
  rep_null: "rep h None None {}"
| rep_node:
    "p < length h \<Longrightarrow> cweight (h ! p) = w \<Longrightarrow> cfragment (h ! p) = frag
       \<Longrightarrow> rep h (cleft (h ! p)) l Al \<Longrightarrow> rep h (cright (h ! p)) r Ar
       \<Longrightarrow> p \<notin> Al \<Longrightarrow> p \<notin> Ar \<Longrightarrow> Al \<inter> Ar = {}
       \<Longrightarrow> rep h (Some p) (Some (rope_node w l r frag)) (insert p (Al \<union> Ar))"

text \<open>\<open>ext h A h'\<close>: the heap \<open>h'\<close> has the cells of \<open>h\<close> and maybe more, and differs
  from \<open>h\<close> only at addresses in \<open>A\<close>.\<close>

definition ext :: "heap \<Rightarrow> nat set \<Rightarrow> heap \<Rightarrow> bool" where
  "ext h A h' \<longleftrightarrow> length h \<le> length h' \<and> (\<forall>x < length h. x \<notin> A \<longrightarrow> h' ! x = h ! x)"

text \<open>
  What \<^verbatim>\<open>splitAt\<close> in the heap has to do with a tree whose nodes are \<open>A\<close>, for the result
  \<open>vres\<close> of \<open>splitAt\<close> on the value of the tree: the same exception, or two pointers
  that represent the two parts, in disjoint sets of nodes that are nodes of the tree or
  new.
\<close>

definition split_post ::
    "heap \<Rightarrow> nat set \<Rightarrow> heap \<Rightarrow> error + nat option \<times> nat option \<Rightarrow> error + handle \<times> handle
       \<Rightarrow> bool" where
  "split_post h A h' res vres \<longleftrightarrow>
     length h \<le> length h' \<and> (\<forall>x < length h. x \<notin> A \<longrightarrow> h' ! x = h ! x)
     \<and> (case vres of
           Inl e \<Rightarrow> res = Inl e
         | Inr (a, b) \<Rightarrow>
             (\<exists>pa pb Aa Ab. res = Inr (pa, pb) \<and> rep h' pa a Aa \<and> rep h' pb b Ab
                \<and> Aa \<inter> Ab = {} \<and> (\<forall>x \<in> Aa \<union> Ab. x \<in> A \<or> length h \<le> x)))"

text \<open>The same for a mutator of a rope whose tree has the nodes \<open>Ft\<close>, and the result
  \<open>m\<close> of the mutator on the value of the rope.\<close>

definition tree_sim :: "heap \<Rightarrow> nat set \<Rightarrow> h_mutation \<Rightarrow> mutation \<Rightarrow> bool" where
  "tree_sim h Ft res m \<longleftrightarrow>
     (\<exists>h' p' F'. res = Some (h', fst m, p') \<and> rep h' p' (root (snd m)) F'
        \<and> ext h Ft h' \<and> (\<forall>x \<in> F'. x \<in> Ft \<or> length h \<le> x))"

text \<open>
  \<open>owned st \<sigma> F L\<close>: in the state \<open>st\<close> every rope object \<open>a\<close> of \<open>L\<close> has the tree of
  the value \<open>\<sigma> a\<close>, in the nodes \<open>F a\<close>, and no node belongs to two ropes. This is what
  \<^verbatim>\<open>std::unique_ptr\<close> stands for in the source.
\<close>

definition owned :: "hstate \<Rightarrow> store \<Rightarrow> (nat \<Rightarrow> nat set) \<Rightarrow> nat set \<Rightarrow> bool" where
  "owned st \<sigma> F L \<longleftrightarrow>
     (\<forall>a \<in> L. rep (heap st) (roots st a) (root (\<sigma> a)) (F a))
     \<and> (\<forall>a \<in> L. \<forall>b \<in> L. a \<noteq> b \<longrightarrow> F a \<inter> F b = {})"

subsection \<open>Example states\<close>

text \<open>\<open>two_ropes\<close> is the state after \<^verbatim>\<open>rope r; rope s("abc");\<close> with \<open>r\<close> at address 0
  and \<open>s\<close> at address 1; \<open>two_values\<close> and \<open>two_footprints\<close> are the values and the nodes
  of the two ropes. In \<open>aliased\<close> every rope object has the same root, the tree of
  \<^verbatim>\<open>"ab"\<close> and \<^verbatim>\<open>"cd"\<close>: a state that no program reaches, in which the trees are shared.\<close>

definition no_ropes :: hstate where
  "no_ropes = \<lparr>heap = [], roots = (\<lambda>a. None)\<rparr>"

definition two_ropes :: hstate where
  "two_ropes = hs_rope_of_string (hs_rope_of_string no_ropes 0 []) 1 ''abc''"

definition two_values :: store where
  "two_values = (\<lambda>a. rope_default)(0 := rope_of_string [], 1 := rope_of_string ''abc'')"

definition two_footprints :: "nat \<Rightarrow> nat set" where
  "two_footprints = (\<lambda>a. {})(0 := {0}, 1 := {1})"

definition aliased :: hstate where
  "aliased =
     \<lparr>heap = [\<lparr>cweight = 2, cleft = None, cright = None, cfragment = ''ab''\<rparr>,
              \<lparr>cweight = 2, cleft = None, cright = None, cfragment = ''cd''\<rparr>,
              \<lparr>cweight = 2, cleft = Some 0, cright = Some 1, cfragment = []\<rparr>],
      roots = (\<lambda>a. Some 2)\<rparr>"

section \<open>Lengths and splitting\<close>

lemma isLeaf_node: "isLeaf (rope_node w l r frag) \<longleftrightarrow> l = None \<and> r = None"
  by (simp add: isLeaf_def)

lemma unat_size_t_bound: "unat (w :: size_t) < 2 ^ 64"
proof -
  have "unat w < 2 ^ LENGTH(64)" by (rule unsigned_less)
  then show ?thesis by simp
qed

lemma unat_of_nat_fits: "n < 2 ^ 64 \<Longrightarrow> unat (of_nat n :: size_t) = n"
  by (simp add: unat_of_nat)

lemma tts_Some: "treeToString (rope_node w (Some l') r frag) = treeToString l' @ handle_string r"
  by (cases r) auto

lemma getLength_wf: "wf n \<Longrightarrow> getLength n = of_nat (length (treeToString n))"
proof (induction n)
  case (rope_node w l r frag)
  show ?case
  proof (cases "l = None \<and> r = None")
    case True
    with rope_node.prems show ?thesis by simp
  next
    case False
    with rope_node.prems obtain l' where l: "l = Some l'"
      and w: "w = of_nat (length (treeToString l'))"
      by (auto split: option.splits)
    show ?thesis
    proof (cases r)
      case None
      with l w show ?thesis by simp
    next
      case (Some r')
      with rope_node.prems l have "wf r'" by simp
      with rope_node.IH(2)[of r'] Some have "getLength r' = of_nat (length (treeToString r'))"
        by simp
      with l Some w show ?thesis by simp
    qed
  qed
qed

lemma unat_getLength:
  assumes "wf n" and "fits (treeToString n)"
  shows "unat (getLength n) = length (treeToString n)"
  using assms by (simp add: getLength_wf fits_def unat_of_nat_fits)

lemma leaf_wf: "wf (leaf s)"
  by (simp add: leaf_def)

lemma treeToString_leaf: "treeToString (leaf s) = s"
  by (simp add: leaf_def)

lemma splitAt_wf:
  assumes "wf n" and "fits (treeToString n)" and "unat i \<le> length (treeToString n)"
  shows "\<exists>a b. splitAt (Some n) i = Inr (Some a, b) \<and> wf a \<and> handle_wf b
           \<and> treeToString a = take (unat i) (treeToString n)
           \<and> handle_string b = drop (unat i) (treeToString n)
           \<and> (unat i < length (treeToString n) \<longrightarrow> b \<noteq> None)
           \<and> (rspine n \<longrightarrow> (\<exists>b'. b = Some b' \<and> rspine b'))"
  using assms
proof (induction n arbitrary: i)
  case (rope_node w l r frag)
  note wfn = rope_node.prems(1) and ft = rope_node.prems(2) and le = rope_node.prems(3)
  show ?case
  proof (cases "l = None \<and> r = None")
    case True
    from ft True have bnd: "length frag < 2 ^ 64" by (simp add: fits_def)
    with wfn True have w: "unat w = length frag" by (simp add: unat_of_nat_fits)
    from le True have ile: "unat i \<le> length frag" by simp
    with w have "i \<le> w" by (simp add: word_le_nat_alt)
    then have sub: "unat (w - i) = unat w - unat i" by (simp add: unat_sub)
    have 1: "substr frag 0 i = Inr (take (unat i) frag)" by (simp add: substr_def)
    have 2: "substr frag i (w - i) = Inr (drop (unat i) frag)"
      using ile sub w by (simp add: substr_def)
    from True 1 2 show ?thesis
      using leaf_wf[of "take (unat i) frag"] leaf_wf[of "drop (unat i) frag"]
      by (simp add: treeToString_leaf) (simp add: leaf_def)
  next
    case False
    with wfn obtain l' where l: "l = Some l'" and wl: "wf l'"
      and w0: "w = of_nat (length (treeToString l'))" and frag: "frag = []"
      and wr: "handle_wf r"
      by (cases r) (auto split: option.splits)
    have str: "treeToString (rope_node w l r frag) = treeToString l' @ handle_string r"
      using l by (cases r) auto
    have bnd: "length (treeToString l') + length (handle_string r) < 2 ^ 64"
      using ft unfolding str fits_def by simp
    have w: "unat w = length (treeToString l')"
      using w0 bnd by (simp add: unat_of_nat_fits)
    have fl: "fits (treeToString l')" using bnd by (simp add: fits_def)
    have rsp: "rspine (rope_node w l r frag) \<longleftrightarrow> (\<exists>r'. r = Some r' \<and> rspine r')"
      using l by (cases r) auto
    have le2: "unat i \<le> length (treeToString l') + length (handle_string r)"
      using le unfolding str by simp
    consider (lt) "i < w" | (gt) "w < i" | (eq) "i = w" by (metis linorder_neqE)
    then show ?thesis
    proof cases
      case lt
      then have ilt: "unat i < length (treeToString l')" using w by (simp add: word_less_nat_alt)
      from rope_node.IH(1)[of l' i] l wl fl ilt
      obtain a b where sp: "splitAt (Some l') i = Inr (Some a, Some b)" and wa: "wf a"
        and wb: "wf b" and sa: "treeToString a = take (unat i) (treeToString l')"
        and sb: "treeToString b = drop (unat i) (treeToString l')"
        by force
      let ?c = "rope_node (getLength b) (Some b) r []"
      have res: "splitAt (Some (rope_node w l r frag)) i
                   = Inr (Some (rope_node i (Some a) None frag), Some ?c)"
        using lt sp l by (simp add: concat_node_def)
      have wfa: "wf (rope_node i (Some a) None frag)"
        using wa sa ilt frag by simp
      have wfc: "handle_wf (Some ?c)"
        using wb wr getLength_wf[OF wb] by (cases r) auto
      have s1: "treeToString (rope_node i (Some a) None frag)
                  = take (unat i) (treeToString l' @ handle_string r)"
        using sa ilt by (simp add: tts_Some del: treeToString.simps)
      have s2: "handle_string (Some ?c) = drop (unat i) (treeToString l' @ handle_string r)"
        using sb ilt by (simp add: tts_Some del: treeToString.simps)
      have s3: "rspine (rope_node w l r frag) \<longrightarrow> (\<exists>b'. Some ?c = Some b' \<and> rspine b')"
        using l by (cases r) auto
      from res wfa wfc s1 s2 s3 show ?thesis unfolding str by blast
    next
      case gt
      then have wlt: "unat w < unat i" by (simp add: word_less_nat_alt)
      from gt have sub: "unat (i - w) = unat i - unat w" by (simp add: unat_sub)
      from wlt le2 w have "handle_string r \<noteq> []" by auto
      then obtain r' where r: "r = Some r'" by (cases r) auto
      with wr have wr': "wf r'" by simp
      have hr: "handle_string r = treeToString r'" using r by simp
      have fr: "fits (treeToString r')" using bnd hr by (simp add: fits_def)
      have le': "unat (i - w) \<le> length (treeToString r')"
        using sub le2 w hr by simp
      from rope_node.IH(2)[of r' "i - w"] r wr' fr le'
      obtain a b where sp: "splitAt (Some r') (i - w) = Inr (Some a, b)" and wa: "wf a"
        and wb: "handle_wf b" and sa: "treeToString a = take (unat (i - w)) (treeToString r')"
        and sb: "handle_string b = drop (unat (i - w)) (treeToString r')"
        and nn: "unat (i - w) < length (treeToString r') \<longrightarrow> b \<noteq> None"
        and sp': "rspine r' \<longrightarrow> (\<exists>b'. b = Some b' \<and> rspine b')"
        by force
      have res: "splitAt (Some (rope_node w l r frag)) i
                   = Inr (Some (rope_node w l (Some a) frag), b)"
        using gt sp l r by (auto simp: not_less_iff_gr_or_eq)
      have wfa: "wf (rope_node w l (Some a) frag)"
        using wa wl w0 l frag by simp
      have s1: "treeToString (rope_node w l (Some a) frag)
                  = take (unat i) (treeToString l' @ handle_string r)"
        using sa l w sub wlt hr by (simp add: tts_Some del: treeToString.simps)
      have s2: "handle_string b = drop (unat i) (treeToString l' @ handle_string r)"
        using sb w sub wlt hr by simp
      have s3: "unat i < length (treeToString l' @ handle_string r) \<longrightarrow> b \<noteq> None"
      proof
        assume "unat i < length (treeToString l' @ handle_string r)"
        then have "unat (i - w) < length (treeToString r')"
          using sub w hr wlt by simp
        with nn show "b \<noteq> None" by simp
      qed
      have s4: "rspine (rope_node w l r frag) \<longrightarrow> (\<exists>b'. b = Some b' \<and> rspine b')"
        using sp' r rsp by blast
      from res wfa wb s1 s2 s3 s4 show ?thesis unfolding str by blast
    next
      case eq
      have res: "splitAt (Some (rope_node w l r frag)) i = Inr (Some l', r)"
        using eq l by simp
      have s1: "treeToString l' = take (unat i) (treeToString l' @ handle_string r)"
        using eq w by simp
      have s2: "handle_string r = drop (unat i) (treeToString l' @ handle_string r)"
        using eq w by simp
      have s3: "unat i < length (treeToString l' @ handle_string r) \<longrightarrow> r \<noteq> None"
        using eq w by (cases r) auto
      have s4: "rspine (rope_node w l r frag) \<longrightarrow> (\<exists>b'. r = Some b' \<and> rspine b')"
        using rsp by blast
      from res wl wr s1 s2 s3 s4 show ?thesis unfolding str by blast
    qed
  qed
qed


lemma copy_node_id: "copy_node n = n"
  by (induction n) (auto split: option.splits)

text \<open>
  Claim C8. For a well-formed node \<open>n\<close> whose string fits the address space and an index
  \<open>i\<close> with \<open>0 \<le> i \<le> length(n)\<close>,
  \<^verbatim>\<open>splitAt\<close> returns a pair of handles: the string of the first is the first \<open>i\<close> bytes of
  the string of \<open>n\<close>, the string of the second is the rest, and the two strings
  concatenated are the string of \<open>n\<close>.
\<close>

theorem splitAt_strings:
  assumes "wf n" and "fits (treeToString n)" and "unat i \<le> length (treeToString n)"
  shows "\<exists>a b. splitAt (Some n) i = Inr (a, b)
           \<and> handle_string a = take (unat i) (treeToString n)
           \<and> handle_string b = drop (unat i) (treeToString n)
           \<and> handle_string a @ handle_string b = treeToString n"
proof -
  from splitAt_wf[OF assms] obtain a b where
    "splitAt (Some n) i = Inr (Some a, b)"
    "treeToString a = take (unat i) (treeToString n)"
    "handle_string b = drop (unat i) (treeToString n)" by blast
  then show ?thesis by simp
qed

theorem splitAt_strings_witness:
  "wf (rope_node 2 (Some (leaf ''ab'')) (Some (leaf ''cde'')) [])
   \<and> fits (treeToString (rope_node 2 (Some (leaf ''ab'')) (Some (leaf ''cde'')) []))
   \<and> unat (1 :: size_t) \<le> length (treeToString (rope_node 2 (Some (leaf ''ab'')) (Some (leaf ''cde'')) []))
   \<and> (\<exists>a b. splitAt (Some (rope_node 2 (Some (leaf ''ab'')) (Some (leaf ''cde'')) [])) 1 = Inr (a, b)
           \<and> handle_string a = ''a''
           \<and> handle_string b = ''bcde'')"
proof -
  have 1: "wf (rope_node 2 (Some (leaf ''ab'')) (Some (leaf ''cde'')) [])"
    by (simp add: leaf_def)
  have 2: "fits (treeToString (rope_node 2 (Some (leaf ''ab'')) (Some (leaf ''cde'')) []))"
    by (simp add: leaf_def fits_def)
  have 3: "unat (1 :: size_t) \<le> length (treeToString (rope_node 2 (Some (leaf ''ab'')) (Some (leaf ''cde'')) []))"
    by (simp add: leaf_def)
  from splitAt_strings[OF 1 2 3] 1 2 3 show ?thesis
    by (simp add: leaf_def substr_def concat_node_def)
qed

section \<open>Indexed read\<close>

lemma getCharByIndex_inside:
  assumes "wf n" and "fits (treeToString n)" and "unat i < length (treeToString n)"
  shows "getCharByIndex n i = Inr (treeToString n ! unat i)"
  using assms
proof (induction n arbitrary: i)
  case (rope_node w l r frag)
  note wfn = rope_node.prems(1) and ft = rope_node.prems(2) and lt = rope_node.prems(3)
  show ?case
  proof (cases "l = None \<and> r = None")
    case True
    from ft True have "length frag < 2 ^ 64" by (simp add: fits_def)
    with wfn True have "unat w = length frag" by (simp add: unat_of_nat_fits)
    with lt True have "unat i < unat w" "unat i < length frag" by simp_all
    then have "\<not> w \<le> i" by (simp add: word_le_nat_alt)
    with True \<open>unat i < length frag\<close> show ?thesis by simp
  next
    case False
    with wfn obtain l' where l: "l = Some l'" and wl: "wf l'"
      and w0: "w = of_nat (length (treeToString l'))" and wr: "handle_wf r"
      by (cases r) (auto split: option.splits)
    have str: "treeToString (rope_node w l r frag) = treeToString l' @ handle_string r"
      using l by (simp add: tts_Some del: treeToString.simps)
    have bnd: "length (treeToString l') + length (handle_string r) < 2 ^ 64"
      using ft unfolding str fits_def by simp
    have w: "unat w = length (treeToString l')"
      using w0 bnd by (simp add: unat_of_nat_fits)
    have fl: "fits (treeToString l')" using bnd by (simp add: fits_def)
    have lt2: "unat i < length (treeToString l') + length (handle_string r)"
      using lt unfolding str by simp
    show ?thesis
    proof (cases "i < w")
      case True
      then have ilt: "unat i < length (treeToString l')" using w by (simp add: word_less_nat_alt)
      have "getCharByIndex (rope_node w l r frag) i = getCharByIndex l' i"
        using True l by simp
      also have "\<dots> = Inr (treeToString l' ! unat i)"
        using rope_node.IH(1)[of l' i] l wl fl ilt by simp
      also have "treeToString l' ! unat i = (treeToString l' @ handle_string r) ! unat i"
        using ilt by (simp add: nth_append)
      finally show ?thesis unfolding str .
    next
      case ge: False
      then have wle: "unat w \<le> unat i" by (simp add: word_less_nat_alt)
      from ge have "w \<le> i" by simp
      then have sub: "unat (i - w) = unat i - unat w" by (simp add: unat_sub)
      from wle lt2 w have "handle_string r \<noteq> []" by auto
      then obtain r' where r: "r = Some r'" by (cases r) auto
      with wr have wr': "wf r'" by simp
      have hr: "handle_string r = treeToString r'" using r by simp
      have fr: "fits (treeToString r')" using bnd hr by (simp add: fits_def)
      have lt': "unat (i - w) < length (treeToString r')" using sub lt2 w wle hr by simp
      have "getCharByIndex (rope_node w l r frag) i = getCharByIndex r' (i - w)"
        using ge l r by simp
      also have "\<dots> = Inr (treeToString r' ! unat (i - w))"
        using rope_node.IH(2)[of r' "i - w"] r wr' fr lt' by simp
      also have "treeToString r' ! unat (i - w) = (treeToString l' @ handle_string r) ! unat i"
        using wle w sub hr by (simp add: nth_append)
      finally show ?thesis unfolding str .
    qed
  qed
qed

lemma getCharByIndex_outside:
  assumes "wf n" and "fits (treeToString n)" and "rspine n"
    and "length (treeToString n) \<le> unat i"
  shows "getCharByIndex n i = Inl InvalidArgument"
  using assms
proof (induction n arbitrary: i)
  case (rope_node w l r frag)
  note wfn = rope_node.prems(1) and ft = rope_node.prems(2) and rs = rope_node.prems(3)
    and ge = rope_node.prems(4)
  show ?case
  proof (cases "l = None \<and> r = None")
    case True
    from ft True have "length frag < 2 ^ 64" by (simp add: fits_def)
    with wfn True have "unat w = length frag" by (simp add: unat_of_nat_fits)
    with ge True have "unat w \<le> unat i" by simp
    then have "w \<le> i" by (simp add: word_le_nat_alt)
    with True show ?thesis by simp
  next
    case False
    with wfn obtain l' where l: "l = Some l'"
      and w0: "w = of_nat (length (treeToString l'))"
      by (cases r) (auto split: option.splits)
    from False rs obtain r' where r: "r = Some r'" and rs': "rspine r'"
      by (cases r) auto
    from wfn l r have wr': "wf r'" by simp
    have str: "treeToString (rope_node w l r frag) = treeToString l' @ treeToString r'"
      using l r by simp
    have bnd: "length (treeToString l') + length (treeToString r') < 2 ^ 64"
      using ft unfolding str fits_def by simp
    have w: "unat w = length (treeToString l')"
      using w0 bnd by (simp add: unat_of_nat_fits)
    have fr: "fits (treeToString r')" using bnd by (simp add: fits_def)
    have ge2: "length (treeToString l') + length (treeToString r') \<le> unat i"
      using ge unfolding str by simp
    then have wle: "unat w \<le> unat i" using w by simp
    then have nlt: "\<not> i < w" by (simp add: word_less_nat_alt)
    then have "w \<le> i" by simp
    then have sub: "unat (i - w) = unat i - unat w" by (simp add: unat_sub)
    have ge': "length (treeToString r') \<le> unat (i - w)" using sub ge2 w by simp
    have "getCharByIndex (rope_node w l r frag) i = getCharByIndex r' (i - w)"
      using nlt l r by simp
    also have "\<dots> = Inl InvalidArgument"
      using rope_node.IH(2)[of r' "i - w"] r wr' fr rs' ge' by simp
    finally show ?thesis .
  qed
qed

lemma rope_inv_root:
  "rope_inv r \<longleftrightarrow> (\<exists>n. root r = Some n \<and> wf n \<and> rspine n)"
  by (cases "root r") (simp_all add: rope_inv_def)

lemma length_rope_wf:
  assumes "root r = Some n" and "wf n" and "fits (toString r)"
  shows "unat (length_rope r) = length (toString r)"
  using assms by (simp add: length_rope_def toString_def unat_getLength)

text \<open>
  Claim C9. For a rope that satisfies the invariant, or whose root is absent, whose
  string fits the address space, and every \<^verbatim>\<open>size_t\<close> index \<open>i\<close>: if \<open>i < length(r)\<close> then \<^verbatim>\<open>at\<close> returns the byte of
  \<^verbatim>\<open>toString\<close> at \<open>i\<close>; if \<open>i \<ge> length(r)\<close>, so for every \<open>i\<close> on an empty rope, it throws
  the out-of-bounds \<^verbatim>\<open>std::invalid_argument\<close>.
\<close>

theorem at_correct:
  assumes "rope_inv r \<or> root r = None" and "fits (toString r)"
  shows "(unat i < length (toString r) \<longrightarrow> at r i = Inr (toString r ! unat i))
       \<and> (length (toString r) \<le> unat i \<longrightarrow> at r i = Inl InvalidArgument)"
proof (cases "root r")
  case None
  then show ?thesis by (simp add: at_def toString_def)
next
  case (Some n)
  with assms have "wf n" "rspine n" "fits (treeToString n)"
    by (simp_all add: rope_inv_root toString_def)
  with Some show ?thesis
    by (simp add: at_def toString_def getCharByIndex_inside getCharByIndex_outside)
qed

theorem at_correct_witness:
  "(rope_inv (snd (append_string (rope_of_string ''ab'') ''cde''))
      \<or> root (snd (append_string (rope_of_string ''ab'') ''cde'')) = None)
   \<and> fits (toString (snd (append_string (rope_of_string ''ab'') ''cde'')))
   \<and> at (snd (append_string (rope_of_string ''ab'') ''cde'')) 3 = Inr CHR ''d''
   \<and> at (snd (append_string (rope_of_string ''ab'') ''cde'')) 5 = Inl InvalidArgument"
proof -
  let ?r = "snd (append_string (rope_of_string ''ab'') ''cde'')"
  have r: "?r = \<lparr>root = Some (rope_node 2 (Some (rope_node 2 None None ''ab''))
                      (Some (rope_node 3 None None ''cde'')) [])\<rparr>"
    by (simp add: append_string_def rope_of_string_def leaf_def concat_node_def)
  have inv: "rope_inv ?r \<or> root ?r = None"
    unfolding r by (simp add: rope_inv_def)
  have ft: "fits (toString ?r)"
    unfolding r by (simp add: toString_def fits_def)
  from at_correct[OF inv ft, of 3] at_correct[OF inv ft, of 5] inv ft show ?thesis
    unfolding r by (simp add: toString_def)
qed

section \<open>Insertion and deletion\<close>

lemma concat_node_Some: "concat_node (Some a) b = Inr (rope_node (getLength a) (Some a) b [])"
  by (simp add: concat_node_def)

lemma concat_wf:
  assumes "wf a" and "handle_wf b"
  shows "wf (rope_node (getLength a) (Some a) b [])"
  using assms getLength_wf[OF assms(1)] by (cases b) auto

lemma rope_copy_Some: "root x = Some m \<Longrightarrow> rope_copy x = Inr \<lparr>root = Some m\<rparr>"
  by (simp add: rope_copy_def copy_node_id)

lemma length_rope_less:
  assumes "root r = Some n" and "wf n" and "fits (toString r)"
  shows "length_rope r < i \<longleftrightarrow> length (toString r) < unat i"
  using length_rope_wf[OF assms] by (simp add: word_less_nat_alt)

lemma insert_rope_result:
  assumes rt: "root r = Some n" and wfn: "wf n" and ft: "fits (toString r)"
    and x: "root x = Some m" and le: "unat i \<le> length (toString r)"
  shows "\<exists>a b. splitAt (Some n) i = Inr (Some a, b)
           \<and> insert_rope r i x =
               (None, \<lparr>root = Some (rope_node (getLength (rope_node (getLength a) (Some a) (Some m) []))
                                      (Some (rope_node (getLength a) (Some a) (Some m) [])) b [])\<rparr>)
           \<and> wf a \<and> handle_wf b
           \<and> treeToString a = take (unat i) (toString r)
           \<and> handle_string b = drop (unat i) (toString r)
           \<and> (rspine n \<longrightarrow> (\<exists>b'. b = Some b' \<and> rspine b'))"
proof -
  have ts: "toString r = treeToString n" using rt by (simp add: toString_def)
  from le have le': "unat i \<le> length (treeToString n)" by (simp add: ts)
  from ft have ft': "fits (treeToString n)" by (simp add: ts)
  from splitAt_wf[OF wfn ft' le'] obtain a b where
    sp: "splitAt (Some n) i = Inr (Some a, b)" and wa: "wf a" and wb: "handle_wf b"
    and sa: "treeToString a = take (unat i) (treeToString n)"
    and sb: "handle_string b = drop (unat i) (treeToString n)"
    and rs: "rspine n \<longrightarrow> (\<exists>b'. b = Some b' \<and> rspine b')" by blast
  have nlt: "\<not> length_rope r < i" using length_rope_less[OF rt wfn ft, of i] le by simp
  have "insert_rope r i x =
          (None, \<lparr>root = Some (rope_node (getLength (rope_node (getLength a) (Some a) (Some m) []))
                                  (Some (rope_node (getLength a) (Some a) (Some m) [])) b [])\<rparr>)"
    using nlt rope_copy_Some[OF x] sp rt
    by (simp add: insert_rope_def concat_node_Some)
  with sp wa wb sa sb rs show ?thesis unfolding ts by blast
qed

lemma insert_rope_string:
  assumes rt: "root r = Some n" and wfn: "wf n" and ft: "fits (toString r)"
    and x: "root x = Some m" and le: "unat i \<le> length (toString r)"
  shows "\<exists>r'. insert_rope r i x = (None, r')
           \<and> toString r' = take (unat i) (toString r) @ toString x @ drop (unat i) (toString r)"
proof -
  from insert_rope_result[OF assms] obtain a b where
    res: "insert_rope r i x =
               (None, \<lparr>root = Some (rope_node (getLength (rope_node (getLength a) (Some a) (Some m) []))
                                      (Some (rope_node (getLength a) (Some a) (Some m) [])) b [])\<rparr>)"
    and sa: "treeToString a = take (unat i) (toString r)"
    and sb: "handle_string b = drop (unat i) (toString r)" by blast
  have "toString \<lparr>root = Some (rope_node (getLength (rope_node (getLength a) (Some a) (Some m) []))
                                      (Some (rope_node (getLength a) (Some a) (Some m) [])) b [])\<rparr>
        = (treeToString a @ treeToString m) @ handle_string b"
    by (simp add: toString_def tts_Some del: treeToString.simps)
  with res sa sb x show ?thesis by (simp add: toString_def[of x])
qed

lemma insert_rope_out_of_bounds:
  assumes rt: "root r = Some n" and wfn: "wf n" and ft: "fits (toString r)"
    and gt: "length (toString r) < unat i"
  shows "insert_rope r i x = (Some InvalidArgument, r)"
  using length_rope_less[OF rt wfn ft, of i] gt by (simp add: insert_rope_def)

lemma insert_rope_inv:
  assumes "rope_inv r" and ft: "fits (toString r)" and "rope_inv x"
    and le: "unat i \<le> length (toString r)"
  shows "fst (insert_rope r i x) = None \<and> rope_inv (snd (insert_rope r i x))"
proof -
  from assms(1) obtain n where rt: "root r = Some n" and wfn: "wf n" and rsn: "rspine n"
    by (auto simp: rope_inv_root)
  from assms(3) obtain m where x: "root x = Some m" and wfm: "wf m" and rsm: "rspine m"
    by (auto simp: rope_inv_root)
  from insert_rope_result[OF rt wfn ft x le] rsn obtain a b where
    res: "insert_rope r i x =
               (None, \<lparr>root = Some (rope_node (getLength (rope_node (getLength a) (Some a) (Some m) []))
                                      (Some (rope_node (getLength a) (Some a) (Some m) [])) (Some b) [])\<rparr>)"
    and wa: "wf a" and wb: "wf b" and rsb: "rspine b" by force
  let ?t = "rope_node (getLength a) (Some a) (Some m) []"
  have wt: "wf ?t" by (rule concat_wf[OF wa]) (simp add: wfm)
  have "wf (rope_node (getLength ?t) (Some ?t) (Some b) [])"
    by (rule concat_wf[OF wt]) (simp add: wb)
  moreover have "rspine (rope_node (getLength ?t) (Some ?t) (Some b) [])" using rsb by simp
  ultimately show ?thesis unfolding res
    by (simp add: rope_inv_def del: wf.simps rspine.simps getLength.simps)
qed

lemma rope_of_string_inv: "rope_inv (rope_of_string s)"
  using leaf_wf[of s] by (simp add: rope_of_string_def rope_inv_def) (simp add: leaf_def)

lemma toString_rope_of_string: "toString (rope_of_string s) = s"
  by (simp add: rope_of_string_def toString_def leaf_def)

lemma append_rope_inv:
  assumes "rope_inv r" and "rope_inv x"
  shows "fst (append_rope r x) = None \<and> rope_inv (snd (append_rope r x))
         \<and> toString (snd (append_rope r x)) = toString r @ toString x"
proof -
  from assms(1) obtain n where rt: "root r = Some n" and wfn: "wf n"
    by (auto simp: rope_inv_root)
  from assms(2) obtain m where x: "root x = Some m" and wfm: "wf m" and rsm: "rspine m"
    by (auto simp: rope_inv_root)
  have res: "append_rope r x = (None, \<lparr>root = Some (rope_node (getLength n) (Some n) (Some m) [])\<rparr>)"
    using rt rope_copy_Some[OF x] by (simp add: append_rope_def concat_node_Some)
  have "wf (rope_node (getLength n) (Some n) (Some m) [])"
    by (rule concat_wf[OF wfn]) (simp add: wfm)
  moreover have "rspine (rope_node (getLength n) (Some n) (Some m) [])" using rsm by simp
  moreover have "treeToString (rope_node (getLength n) (Some n) (Some m) []) = treeToString n @ treeToString m"
    by (simp add: tts_Some del: treeToString.simps)
  ultimately show ?thesis unfolding res using rt x
    by (simp add: rope_inv_def toString_def
          del: wf.simps rspine.simps getLength.simps treeToString.simps)
qed

lemma append_string_eq: "append_string r s = append_rope r (rope_of_string s)"
  by (simp add: append_string_def append_rope_def rope_copy_def rope_of_string_def copy_node_id)

lemma rdelete_result:
  assumes inv: "rope_inv r" and ft: "fits (toString r)"
    and le: "unat s + unat l \<le> length (toString r)"
  shows "\<exists>a b. rdelete r s l = (None, \<lparr>root = Some (rope_node (getLength a) (Some a) (Some b) [])\<rparr>)
           \<and> wf a \<and> wf b \<and> rspine b
           \<and> treeToString a = take (unat s) (toString r)
           \<and> treeToString b = drop (unat s + unat l) (toString r)"
proof -
  from inv obtain n where rt: "root r = Some n" and wfn: "wf n" and rsn: "rspine n"
    by (auto simp: rope_inv_root)
  have ts: "toString r = treeToString n" using rt by (simp add: toString_def)
  have len: "unat (length_rope r) = length (treeToString n)"
    using length_rope_wf[OF rt wfn ft] ts by simp
  have ftn: "fits (treeToString n)" using ft by (simp add: ts)
  then have bound: "length (treeToString n) < 2 ^ 64" by (simp add: fits_def)
  from le bound have "unat s + unat l < 2 ^ LENGTH(64)" by (simp add: ts)
  then have add: "unat (s + l) = unat s + unat l" using unat_add_lem[of s l] by simp
  have chk: "\<not> (s > length_rope r \<or> s + l > length_rope r)"
    using le len add by (simp add: word_less_nat_alt ts)
  from le have le1: "unat s \<le> length (treeToString n)" by (simp add: ts)
  from splitAt_wf[OF wfn ftn le1] rsn obtain a m where
    sp1: "splitAt (Some n) s = Inr (Some a, Some m)" and wa: "wf a" and wm: "wf m"
    and sa: "treeToString a = take (unat s) (treeToString n)"
    and sm: "treeToString m = drop (unat s) (treeToString n)"
    and rsm: "rspine m" by force
  from le have le2: "unat l \<le> length (treeToString m)" by (simp add: sm ts)
  have ftm: "fits (treeToString m)" using bound by (simp add: sm fits_def)
  from splitAt_wf[OF wm ftm le2] rsm obtain d b where
    sp2: "splitAt (Some m) l = Inr (Some d, Some b)" and wb: "wf b"
    and sb: "treeToString b = drop (unat l) (treeToString m)"
    and rsb: "rspine b" by force
  have res: "rdelete r s l = (None, \<lparr>root = Some (rope_node (getLength a) (Some a) (Some b) [])\<rparr>)"
    using chk sp1 sp2 rt by (simp add: rdelete_def Let_def concat_node_Some)
  have sb': "treeToString b = drop (unat s + unat l) (toString r)"
    using sb sm by (simp add: ts add.commute)
  from res wa wb rsb sa sb' show ?thesis unfolding ts by blast
qed

lemma rdelete_inv:
  assumes inv: "rope_inv r" and ft: "fits (toString r)"
    and le: "unat s + unat l \<le> length (toString r)"
  shows "fst (rdelete r s l) = None \<and> rope_inv (snd (rdelete r s l))"
proof -
  from rdelete_result[OF assms] obtain a b where
    res: "rdelete r s l = (None, \<lparr>root = Some (rope_node (getLength a) (Some a) (Some b) [])\<rparr>)"
    and wa: "wf a" and wb: "wf b" and rsb: "rspine b" by blast
  have "wf (rope_node (getLength a) (Some a) (Some b) [])"
    by (rule concat_wf[OF wa]) (simp add: wb)
  moreover have "rspine (rope_node (getLength a) (Some a) (Some b) [])" using rsb by simp
  ultimately show ?thesis unfolding res
    by (simp add: rope_inv_def del: wf.simps rspine.simps getLength.simps)
qed

text \<open>
  Claim C6. For a rope object \<open>this\<close> that satisfies the invariant and whose string fits
  the address space, and a rope object \<open>x\<close> with a root (\<open>x\<close> may be \<open>this\<close> itself), or a
  string \<open>str\<close>: if \<open>i \<le> length(this)\<close>,
  \<^verbatim>\<open>insert\<close> succeeds and afterwards \<^verbatim>\<open>toString\<close> of \<open>this\<close> is the first \<open>i\<close> bytes of the
  old string, then the string of \<open>x\<close> (or \<open>str\<close>), then the rest of the old string, all
  taken before the call; if \<open>i > length(this)\<close> it throws the out-of-bounds
  \<^verbatim>\<open>std::invalid_argument\<close> and changes nothing.
\<close>

theorem insert_correct:
  assumes "rope_inv (st this)" and "fits (toString (st this))" and "root (st x) \<noteq> None"
  shows "(unat i \<le> length (toString (st this)) \<longrightarrow>
            (\<exists>st'. op_insert st this i x = (None, st')
               \<and> toString (st' this) =
                   take (unat i) (toString (st this)) @ toString (st x)
                     @ drop (unat i) (toString (st this)))
          \<and> (\<exists>st'. op_insert_string st this i str = (None, st')
               \<and> toString (st' this) =
                   take (unat i) (toString (st this)) @ str
                     @ drop (unat i) (toString (st this))))
       \<and> (length (toString (st this)) < unat i \<longrightarrow>
            op_insert st this i x = (Some InvalidArgument, st)
          \<and> op_insert_string st this i str = (Some InvalidArgument, st))"
proof -
  from assms(1) obtain n where rt: "root (st this) = Some n" and wfn: "wf n"
    by (auto simp: rope_inv_root)
  note ft = assms(2)
  from assms(3) obtain m where x: "root (st x) = Some m" by auto
  have xs: "root (rope_of_string str) = Some (leaf str)" by (simp add: rope_of_string_def)
  show ?thesis
  proof (intro conjI impI)
    assume le: "unat i \<le> length (toString (st this))"
    from insert_rope_string[OF rt wfn ft x le] obtain r' where
      "insert_rope (st this) i (st x) = (None, r')"
      "toString r' = take (unat i) (toString (st this)) @ toString (st x)
                       @ drop (unat i) (toString (st this))" by blast
    then show "\<exists>st'. op_insert st this i x = (None, st')
               \<and> toString (st' this) =
                   take (unat i) (toString (st this)) @ toString (st x)
                     @ drop (unat i) (toString (st this))"
      by (simp add: op_insert_def)
    from insert_rope_string[OF rt wfn ft xs le] obtain r' where
      "insert_rope (st this) i (rope_of_string str) = (None, r')"
      "toString r' = take (unat i) (toString (st this)) @ str
                       @ drop (unat i) (toString (st this))"
      by (auto simp: toString_rope_of_string)
    then show "\<exists>st'. op_insert_string st this i str = (None, st')
               \<and> toString (st' this) =
                   take (unat i) (toString (st this)) @ str
                     @ drop (unat i) (toString (st this))"
      by (simp add: op_insert_string_def insert_string_def)
  next
    assume gt: "length (toString (st this)) < unat i"
    from insert_rope_out_of_bounds[OF rt wfn ft gt]
    show "op_insert st this i x = (Some InvalidArgument, st)"
      by (simp add: op_insert_def)
    from insert_rope_out_of_bounds[OF rt wfn ft gt]
    show "op_insert_string st this i str = (Some InvalidArgument, st)"
      by (simp add: op_insert_string_def insert_string_def)
  qed
qed

theorem insert_correct_witness:
  "rope_inv (((\<lambda>a. rope_default)(0 := rope_of_string ''abc'')) 0)
   \<and> fits (toString (((\<lambda>a. rope_default)(0 := rope_of_string ''abc'')) 0))
   \<and> root (((\<lambda>a. rope_default)(0 := rope_of_string ''abc'')) 0) \<noteq> None
   \<and> (\<exists>st'. op_insert ((\<lambda>a. rope_default)(0 := rope_of_string ''abc'')) 0 1 0 = (None, st')
          \<and> toString (st' 0) = ''aabcbc'')
   \<and> (\<exists>st'. op_insert_string ((\<lambda>a. rope_default)(0 := rope_of_string ''abc'')) 0 1 ''xy'' = (None, st')
          \<and> toString (st' 0) = ''axybc'')
   \<and> op_insert ((\<lambda>a. rope_default)(0 := rope_of_string ''abc'')) 0 7 0
        = (Some InvalidArgument, (\<lambda>a. rope_default)(0 := rope_of_string ''abc''))"
proof -
  let ?st = "(\<lambda>a. rope_default)(0 := rope_of_string ''abc'') :: store"
  have inv: "rope_inv (?st 0)"
    by (simp add: rope_inv_def rope_of_string_def leaf_def)
  have rt: "root (?st 0) \<noteq> None"
    by (simp add: rope_of_string_def)
  have ts: "toString (?st 0) = ''abc''"
    by (simp add: toString_rope_of_string)
  have ft: "fits (toString (?st 0))"
    unfolding ts by (simp add: fits_def)
  from insert_correct[where st="?st" and this=0 and x=0 and i=1 and str="''xy''", OF inv ft rt]
    insert_correct[where st="?st" and this=0 and x=0 and i=7 and str="''xy''", OF inv ft rt]
    inv ft rt
  show ?thesis unfolding ts by (simp add: toString_rope_of_string)
qed

text \<open>
  Claim C7. For a rope that satisfies the invariant, whose string fits the address
  space, and \<open>s + l \<le> length(r)\<close> (as unbounded integers), \<^verbatim>\<open>rdelete(s, l)\<close> succeeds and afterwards \<^verbatim>\<open>toString\<close> is the first
  \<open>s\<close> bytes of the old string followed by its bytes from \<open>s + l\<close> on.
\<close>

theorem rdelete_correct:
  assumes "rope_inv r" and "fits (toString r)"
    and "unat s + unat l \<le> length (toString r)"
  shows "\<exists>r'. rdelete r s l = (None, r')
           \<and> toString r' = take (unat s) (toString r) @ drop (unat s + unat l) (toString r)"
proof -
  from rdelete_result[OF assms] obtain a b where
    res: "rdelete r s l = (None, \<lparr>root = Some (rope_node (getLength a) (Some a) (Some b) [])\<rparr>)"
    and sa: "treeToString a = take (unat s) (toString r)"
    and sb: "treeToString b = drop (unat s + unat l) (toString r)" by blast
  have "toString \<lparr>root = Some (rope_node (getLength a) (Some a) (Some b) [])\<rparr>
          = treeToString a @ treeToString b"
    by (simp add: toString_def)
  with res sa sb show ?thesis by simp
qed

theorem rdelete_correct_witness:
  "rope_inv (snd (append_string (rope_of_string ''ab'') ''cde''))
   \<and> fits (toString (snd (append_string (rope_of_string ''ab'') ''cde'')))
   \<and> unat (1 :: size_t) + unat (2 :: size_t)
        \<le> length (toString (snd (append_string (rope_of_string ''ab'') ''cde'')))
   \<and> (\<exists>r'. rdelete (snd (append_string (rope_of_string ''ab'') ''cde'')) 1 2 = (None, r')
          \<and> toString r' = ''ade'')"
proof -
  let ?r = "snd (append_string (rope_of_string ''ab'') ''cde'')"
  have r: "?r = \<lparr>root = Some (rope_node 2 (Some (rope_node 2 None None ''ab''))
                      (Some (rope_node 3 None None ''cde'')) [])\<rparr>"
    by (simp add: append_string_def rope_of_string_def leaf_def concat_node_def)
  have inv: "rope_inv ?r" unfolding r by (simp add: rope_inv_def)
  have ts: "toString ?r = ''abcde''" unfolding r by (simp add: toString_def)
  have ft: "fits (toString ?r)" unfolding ts by (simp add: fits_def)
  have le: "unat (1 :: size_t) + unat (2 :: size_t) \<le> length (toString ?r)"
    unfolding ts by simp
  from rdelete_correct[OF inv ft le] inv ft le show ?thesis unfolding ts by simp
qed

section \<open>Evaluating the operations on small ropes\<close>

lemmas rope_eval = append_string_def insert_string_def insert_rope_def rope_copy_def
  rope_of_string_def rope_default_def leaf_def concat_node_def substr_def toString_def
  length_rope_def substring_def rdelete_def

text \<open>On a rope of one leaf \<^verbatim>\<open>substring\<close> is right.\<close>

lemma substring_single_leaf:
  assumes "fits str" and "unat start + unat len \<le> length str"
  shows "substring (rope_of_string str) start len = Inr (take (unat len) (drop (unat start) str))"
proof -
  from assms have bnd: "length str < 2 ^ 64" by (simp add: fits_def)
  then have w: "unat (of_nat (length str) :: size_t) = length str" by (rule unat_of_nat_fits)
  from assms bnd have "unat start + unat len < 2 ^ LENGTH(64)" by simp
  then have add: "unat (start + len) = unat start + unat len"
    using unat_add_lem[of start len] by simp
  have chk: "\<not> (of_nat (length str) < start \<or> of_nat (length str) < start + len)"
    using assms(2) w add by (simp add: word_less_nat_alt)
  show ?thesis
  proof (cases "len < of_nat (length str)")
    case True
    with chk assms(2) show ?thesis
      by (simp add: substring_def length_rope_def rope_of_string_def leaf_def substr_def)
  next
    case False
    then have "length str \<le> unat len" using w by (simp add: word_less_nat_alt)
    with assms(2) have "unat start = 0" "unat len = length str" by simp_all
    with chk False show ?thesis
      by (simp add: substring_def length_rope_def rope_of_string_def leaf_def)
  qed
qed

text \<open>
  Claim C1 (substring returns exactly the requested bytes) fails on the code. The rope
  \<^verbatim>\<open>rope("ab")\<close> after \<^verbatim>\<open>append("cde")\<close> has the string \<^verbatim>\<open>"abcde"\<close>; \<^verbatim>\<open>substring(1, 2)\<close>
  is in range and should be \<^verbatim>\<open>"bc"\<close>, and the code returns the three bytes \<^verbatim>\<open>"abe"\<close>:
  a leaf asked for at least its weight returns its whole fragment whatever the start,
  and the right subtree is entered with start \<open>w\<close>.
\<close>

theorem substring_two_leaves:
  "append_string (rope_of_string ''ab'') ''cde''
     = (None, \<lparr>root = Some (rope_node 2 (Some (rope_node 2 None None ''ab''))
                               (Some (rope_node 3 None None ''cde'')) [])\<rparr>)
   \<and> toString (snd (append_string (rope_of_string ''ab'') ''cde'')) = ''abcde''
   \<and> substring (snd (append_string (rope_of_string ''ab'') ''cde'')) 1 2 = Inr ''abe''"
  by (simp add: rope_eval)

text \<open>
  Claim C3 (every node that is not a leaf has both children) fails on the code. After
  \<^verbatim>\<open>rope("ab")\<close>, \<^verbatim>\<open>append("cd")\<close> and \<^verbatim>\<open>insert(1, "x")\<close> the tree holds a node with a left
  child, weight 1, an empty fragment and no right child: the node that \<^verbatim>\<open>splitAt\<close> reused
  as its left result. It does not satisfy the invariant stated in the header.
\<close>

theorem insert_leaves_node_without_right_child:
  "insert_string (snd (append_string (rope_of_string ''ab'') ''cd'')) 1 ''x''
     = (None, \<lparr>root = Some
         (rope_node 2
           (Some (rope_node 1
                   (Some (rope_node 1 (Some (rope_node 1 None None ''a'')) None []))
                   (Some (rope_node 1 None None ''x'')) []))
           (Some (rope_node 1 (Some (rope_node 1 None None ''b''))
                   (Some (rope_node 2 None None ''cd'')) []))
           [])\<rparr>)
   \<and> \<not> header_inv (rope_node 1 (Some (rope_node 1 None None ''a'')) None [])"
  by (simp add: rope_eval)

text \<open>Where \<^verbatim>\<open>start + len\<close> does not wrap, a range past the end is rejected before the
  tree is touched.\<close>

lemma range_check_rejects:
  assumes "rope_inv r" and "fits (toString r)"
    and "unat start + unat len < 2 ^ 64"
    and "length (toString r) < unat start + unat len"
  shows "substring r start len = Inl InvalidArgument
       \<and> rdelete r start len = (Some InvalidArgument, r)"
proof -
  from assms(1) obtain n where rt: "root r = Some n" and wfn: "wf n"
    by (auto simp: rope_inv_root)
  have len: "unat (length_rope r) = length (toString r)"
    by (rule length_rope_wf[OF rt wfn assms(2)])
  from assms(3) have "unat start + unat len < 2 ^ LENGTH(64)" by simp
  then have add: "unat (start + len) = unat start + unat len"
    using unat_add_lem[of start len] by simp
  have "length_rope r < start + len"
    using assms(4) len add by (simp add: word_less_nat_alt)
  then show ?thesis by (simp add: substring_def rdelete_def Let_def)
qed

text \<open>
  Claim C4 (a range that exceeds the length is always rejected and the rope is left
  unchanged) fails on the code where \<^verbatim>\<open>start + len\<close> wraps. On \<^verbatim>\<open>rope("abc")\<close> with
  \<open>start = 1\<close> and \<open>len = 2^64 - 1\<close> the sum is 0 and the range check passes:
  \<^verbatim>\<open>substring\<close> returns \<^verbatim>\<open>"abc"\<close> without an error, and \<^verbatim>\<open>rdelete\<close> ends with the
  \<^verbatim>\<open>std::out_of_range\<close> of \<^verbatim>\<open>substr\<close> after the root has been moved out, which leaves the
  rope empty.
\<close>

theorem range_check_wraps:
  "substring (rope_of_string ''abc'') 1 0xFFFFFFFFFFFFFFFF = Inr ''abc''
   \<and> rdelete (rope_of_string ''abc'') 1 0xFFFFFFFFFFFFFFFF = (Some StdOutOfRange, \<lparr>root = None\<rparr>)
   \<and> toString (rope_of_string ''abc'') = ''abc''
   \<and> toString (snd (rdelete (rope_of_string ''abc'') 1 0xFFFFFFFFFFFFFFFF)) = []"
  by (simp add: rope_eval)

section \<open>Balancing\<close>

lemma fib_2: "fib 2 = Some 1"
  by (simp add: fib_def fib_loop.simps)

lemma fib_6: "fib 6 = Some 8"
  by (simp add: fib_def fib_loop.simps)

lemma fib_8: "fib 8 = Some 21"
  by (simp add: fib_def fib_loop.simps)

lemma buildFibList_7: "buildFibList 7 = Some [1, 2, 3, 5, 8]"
  by (simp add: buildFibList_def buildFibList_loop.simps word_sless_alt)

lemma buildFibList_0: "buildFibList 0 = Some []"
  by (simp add: buildFibList_def buildFibList_loop.simps)

lemma seven_built:
  "snd (append_string (snd (append_string (snd (append_string (snd (append_string
     (snd (append_string (snd (append_string (rope_of_string ''a'') ''b'')) ''c'')) ''d''))
       ''e'')) ''f'')) ''g'') = seven"
  by (simp add: rope_eval seven_def)

lemma seven_unbalanced: "isBalanced seven = Some False"
  by (simp add: isBalanced_def seven_def fib_8 length_rope_def)

lemma join_slots_2:
  "join_slots nodes acc 2 =
     (case join_slot nodes acc 2 of
        Inl e \<Rightarrow> Inl e
      | Inr acc1 \<Rightarrow>
          (case join_slot nodes acc1 (Suc 0) of
             Inl e \<Rightarrow> Inl e
           | Inr acc2 \<Rightarrow> join_slot nodes acc2 0))"
  by (simp add: numeral_2_eq_2 split: sum.splits)

lemma balance_seven: "balance seven = Some (None, seven_balanced)"
  apply (simp add: balance_def seven_unbalanced)
  apply (simp add: seven_def length_rope_def buildFibList_7)
  apply (simp add: place_leaf.simps find_slot.simps vec_at_def concat_slot_def concat_node_def word_sle_eq
      word_le_nat_alt word_less_nat_alt join_slots_2 join_slot_def seven_balanced_def)
  done

lemma seven_balanced_unbalanced: "isBalanced seven_balanced = Some False"
  by (simp add: isBalanced_def seven_balanced_def fib_6 length_rope_def)

text \<open>
  Claim C5 (after \<^verbatim>\<open>balance()\<close>, \<^verbatim>\<open>isBalanced()\<close> is true and the string is unchanged) fails
  on the code. The rope \<open>seven\<close> is built by six appends and is not balanced (depth 6,
  length 7, \<open>F(8) = 21\<close>). \<^verbatim>\<open>balance()\<close> returns normally with the tree \<open>seven_balanced\<close>,
  which has the same string but depth 4, and \<open>7 < F(6) = 8\<close>: \<^verbatim>\<open>isBalanced()\<close> is still
  false.
\<close>

theorem balance_result_not_balanced:
  "snd (append_string (snd (append_string (snd (append_string (snd (append_string
     (snd (append_string (snd (append_string (rope_of_string ''a'') ''b'')) ''c'')) ''d''))
       ''e'')) ''f'')) ''g'') = seven
   \<and> isBalanced seven = Some False
   \<and> balance seven = Some (None, seven_balanced)
   \<and> isBalanced seven_balanced = Some False
   \<and> (case root seven_balanced of None \<Rightarrow> 0 | Some n \<Rightarrow> getDepth n) = 4
   \<and> toString seven = ''abcdefg''
   \<and> toString seven_balanced = ''abcdefg''"
proof -
  have "(case root seven_balanced of None \<Rightarrow> 0 | Some n \<Rightarrow> getDepth n) = 4"
    by (simp add: seven_balanced_def)
  moreover have "toString seven = ''abcdefg''"
    by (simp add: seven_def toString_def)
  moreover have "toString seven_balanced = ''abcdefg''"
    by (simp add: seven_balanced_def toString_def)
  ultimately show ?thesis
    using seven_built seven_unbalanced balance_seven seven_balanced_unbalanced by blast
qed

lemma isBalanced_default: "isBalanced rope_default = Some False"
  by (simp add: isBalanced_def rope_default_def rope_of_string_def leaf_def fib_2 length_rope_def)

lemma balance_default: "balance rope_default = Some (Some Undefined, rope_default)"
  by (simp add: balance_def isBalanced_default buildFibList_0)
     (simp add: rope_default_def rope_of_string_def leaf_def length_rope_def buildFibList_0
        vec_at_def)

lemma balance_after_deleting_everything:
  "(case rdelete (snd (append_string (rope_of_string ''ab'') ''cde'')) 0 5 of
      (e, r) \<Rightarrow>
        e = None \<and> toString r = [] \<and> isBalanced r = Some False
        \<and> (case balance r of None \<Rightarrow> False | Some (e', r') \<Rightarrow> e' = Some Undefined))"
  by code_simp

text \<open>
  Claim C2 (a rope of the empty string is balanced, and \<^verbatim>\<open>balance()\<close> leaves it as it is)
  fails on the code. The rope that the default constructor builds is a single empty
  leaf: its string is empty and its length 0, but its root is present, so
  \<^verbatim>\<open>isBalanced()\<close> measures it by \<open>length \<ge> F(depth + 2)\<close>, and \<open>0 < F(2) = 1\<close>: the
  result is false. \<^verbatim>\<open>balance()\<close> therefore goes on, with no intervals and an empty
  vector \<open>nodes\<close>, skips the empty leaf, and reads \<^verbatim>\<open>nodes[0]\<close>. For a rope of the same
  string whose root is absent, \<^verbatim>\<open>isBalanced()\<close> returns true and \<^verbatim>\<open>balance()\<close> does
  nothing.
\<close>

theorem default_rope_not_balanced:
  "toString rope_default = []
   \<and> length_rope rope_default = 0
   \<and> isBalanced rope_default = Some False
   \<and> balance rope_default = Some (Some Undefined, rope_default)
   \<and> isBalanced \<lparr>root = None\<rparr> = Some True
   \<and> balance \<lparr>root = None\<rparr> = Some (None, \<lparr>root = None\<rparr>)"
proof -
  have "toString rope_default = []" "length_rope rope_default = 0"
    by (simp_all add: rope_default_def rope_of_string_def toString_def length_rope_def leaf_def)
  moreover have "isBalanced \<lparr>root = None\<rparr> = Some True"
    "balance \<lparr>root = None\<rparr> = Some (None, \<lparr>root = None\<rparr>)"
    by (simp_all add: isBalanced_def balance_def)
  ultimately show ?thesis using isBalanced_default balance_default by simp
qed

section \<open>The scenarios of the test suite\<close>

text \<open>The embedding gives the results that the tests in \<^verbatim>\<open>tests/proj.cpp\<close> check: the
  tests \<^verbatim>\<open>BALANCE\<close> (six leaves, where \<^verbatim>\<open>balance()\<close> does reach the criterion), \<^verbatim>\<open>AT\<close>,
  \<^verbatim>\<open>LENGTH\<close>, \<^verbatim>\<open>SUBSTRING\<close> and the deletions of \<^verbatim>\<open>STRINGS_EQUAL\<close>.\<close>

lemma abcdef_tree:
  "abcdef = \<lparr>root =
    Some
     (rope_node 1
       (Some
         (rope_node 0
           (Some
             (rope_node 0
               (Some
                 (rope_node 0
                   (Some
                     (rope_node 0
                       (Some
                         (rope_node 0 (Some (rope_node 0 None None [])) None
                           []))
                       None []))
                   None []))
               None []))
           (Some (rope_node 1 None None ''a'')) []))
       (Some
         (rope_node 1 (Some (rope_node 1 None None ''b''))
           (Some
             (rope_node 1 (Some (rope_node 1 None None ''c''))
               (Some
                 (rope_node 1 (Some (rope_node 1 None None ''d''))
                   (Some
                     (rope_node 1 (Some (rope_node 1 None None ''e''))
                       (Some (rope_node 1 None None ''f'')) []))
                   []))
               []))
           []))
       [])\<rparr>"
  by (simp add: abcdef_def rope_eval)

lemma fib_3: "fib 3 = Some 2"
  by (simp add: fib_def fib_loop.simps)

lemma fib_5: "fib 5 = Some 5"
  by (simp add: fib_def fib_loop.simps)

lemma buildFibList_6: "buildFibList 6 = Some [1, 2, 3, 5, 8]"
  by (simp add: buildFibList_def buildFibList_loop.simps word_sless_alt)

lemma abcdef_unbalanced: "isBalanced abcdef = Some False"
  by (simp add: isBalanced_def abcdef_tree fib_8 length_rope_def)

lemma balance_abcdef:
  "balance abcdef = Some (None, \<lparr>root =
      Some
       (rope_node 4
         (Some
           (rope_node 2
             (Some
               (rope_node 1 (Some (rope_node 1 None None ''a''))
                 (Some (rope_node 1 None None ''b'')) []))
             (Some
               (rope_node 1 (Some (rope_node 1 None None ''c''))
                 (Some (rope_node 1 None None ''d'')) []))
             []))
         (Some
           (rope_node 1 (Some (rope_node 1 None None ''e''))
             (Some (rope_node 1 None None ''f'')) []))
         [])\<rparr>)"
  apply (simp add: balance_def abcdef_unbalanced)
  apply (simp add: abcdef_tree length_rope_def buildFibList_6)
  apply (simp add: place_leaf.simps find_slot.simps vec_at_def concat_slot_def concat_node_def
      word_sle_eq word_le_nat_alt word_less_nat_alt join_slots_2 join_slot_def)
  done

lemma test_BALANCE:
  "isBalanced (rope_of_string ''f'') = Some True
   \<and> isBalanced (rope_of_string ''This_is_a_test.'') = Some True
   \<and> isBalanced (snd (insert_rope (rope_of_string ''f'') 0 (rope_of_string ''e''))) = Some False
   \<and> isBalanced abcdef = Some False
   \<and> (\<exists>r'. balance abcdef = Some (None, r') \<and> isBalanced r' = Some True
          \<and> toString r' = ''abcdef'')"
proof -
  have 1: "isBalanced (rope_of_string ''f'') = Some True"
    by (simp add: isBalanced_def rope_eval fib_2)
  have 2: "isBalanced (rope_of_string ''This_is_a_test.'') = Some True"
    by (simp add: isBalanced_def rope_eval fib_2 word_le_nat_alt)
  have 3: "isBalanced (snd (insert_rope (rope_of_string ''f'') 0 (rope_of_string ''e''))) = Some False"
    by (simp add: isBalanced_def rope_eval fib_3 fib_def fib_loop.simps word_le_nat_alt)
  show ?thesis using 1 2 3 abcdef_unbalanced
    by (simp add: balance_abcdef isBalanced_def fib_5 length_rope_def toString_def
          word_le_nat_alt)
qed

lemma test_AT_LENGTH_APPEND:
  "at (rope_of_string ''This_is_a_test.'') 0 = Inr CHR ''T''
   \<and> at (rope_of_string ''This_is_a_test.'') 8 = Inr CHR ''a''
   \<and> length_rope (rope_of_string ''This_is_a_test.'') = 15
   \<and> at (rope_of_string ''Here is a much longer string for testing!'') 102 = Inl InvalidArgument
   \<and> substring (rope_of_string ''This_is_a_test.'') 0 4 = Inr ''This''
   \<and> substring (rope_of_string ''This_is_a_test.'') 10 5 = Inr ''test.''
   \<and> substring rope_default 0 1 = Inl InvalidArgument
   \<and> substring (rope_of_string ''This_is_a_test.'') 1 120 = Inl InvalidArgument"
  by (simp add: at_def rope_eval word_le_nat_alt word_less_nat_alt)

lemma test_STRINGS_EQUAL:
  "toString (snd (rdelete (snd (rdelete (snd (rdelete (rope_of_string ''This_is_a_test.'') 4 1))
       6 1)) 7 1)) = ''Thisisatest.''"
  by (simp add: rope_eval word_le_nat_alt word_less_nat_alt)

section \<open>The invariant holds for every rope that the operations can build\<close>

lemma unat_plus_one:
  assumes "(i :: size_t) < m"
  shows "unat (i + 1) = unat i + 1"
proof -
  from assms have lt: "unat i < unat m" by (simp add: word_less_nat_alt)
  have "unat m < 2 ^ LENGTH(64)" by (rule unsigned_less)
  with lt have "unat i + unat (1 :: size_t) < 2 ^ LENGTH(64)" by simp
  then show ?thesis using unat_add_lem[of i 1] by simp
qed

lemma concat_slot_good:
  assumes "concat_slot intervals nodes i acc = Inr (nodes', acc', len')"
    and "list_all good nodes" and "good acc"
  shows "list_all good nodes' \<and> (\<exists>c. acc' = Some c \<and> wf c \<and> rspine c)
         \<and> length nodes' = length nodes
         \<and> (\<forall>j. j \<noteq> unat i \<longrightarrow> nodes' ! j = nodes ! j)"
proof -
  from assms(1) obtain n a v where
    i: "unat i < length nodes" and n: "nodes ! unat i = Some n" and a: "acc = Some a"
    and v: "vec_at intervals (i + 1) = Inr v"
    and acc': "acc' = Some (rope_node (getLength n) (Some n) (Some a) [])"
    and nodes': "nodes' = (if getLength (rope_node (getLength n) (Some n) (Some a) []) \<ge> v
                           then nodes[unat i := None] else nodes)"
    by (auto simp: concat_slot_def vec_at_def concat_node_def copy_node_id Let_def
          split: if_splits option.splits sum.splits)
  from assms(2) i n have gn: "wf n" "rspine n"
    by (auto simp: list_all_length dest!: spec[of _ "unat i"])
  from assms(3) a have ga: "wf a" "rspine a" by simp_all
  have 1: "wf (rope_node (getLength n) (Some n) (Some a) [])"
    by (rule concat_wf[OF gn(1)]) (simp add: ga)
  have 2: "rspine (rope_node (getLength n) (Some n) (Some a) [])" using ga by simp
  have 3: "list_all good nodes'"
    using assms(2) i unfolding nodes'
    by (auto simp: list_all_length nth_list_update)
  have 4: "length nodes' = length nodes" unfolding nodes' by simp
  have 5: "\<forall>j. j \<noteq> unat i \<longrightarrow> nodes' ! j = nodes ! j" unfolding nodes' by simp
  from 1 2 3 4 5 acc' show ?thesis by blast
qed

lemma find_slot_good:
  assumes "find_slot intervals max_i nodes acc len i = Inr (nodes', acc', len', i')"
    and "list_all good nodes" and "good acc" and "acc \<noteq> None"
  shows "list_all good nodes' \<and> good acc' \<and> acc' \<noteq> None
         \<and> length nodes' = length nodes \<and> i \<le> i'
         \<and> (\<forall>j. unat i' \<le> j \<longrightarrow> nodes' ! j = nodes ! j)"
  using assms
proof (induction intervals max_i nodes acc len i rule: find_slot.induct)
  case (1 intervals max_i nodes acc len i)
  note res = "1.prems"(1) and gn = "1.prems"(2) and ga = "1.prems"(3) and an = "1.prems"(4)
  show ?case
  proof (cases "i < max_i")
    case False
    with res show ?thesis using gn ga an by (simp add: find_slot.simps[of _ _ _ _ _ i])
  next
    case lt: True
    then have ui: "unat (i + 1) = unat i + 1" by (rule unat_plus_one)
    then have ii: "i \<le> i + 1" by (simp add: word_le_nat_alt)
    from res lt obtain v where v: "vec_at intervals (i + 1) = Inr v"
      by (simp add: find_slot.simps[of _ _ _ _ _ i] split: sum.splits)
    show ?thesis
    proof (cases "len \<ge> v")
      case False
      with res lt v show ?thesis using gn ga an by (simp add: find_slot.simps[of _ _ _ _ _ i])
    next
      case ge: True
      from res lt v ge obtain h where h: "vec_at nodes i = Inr h"
        by (simp add: find_slot.simps[of _ _ _ _ _ i] split: sum.splits)
      show ?thesis
      proof (cases h)
        case None
        with res lt v ge h have rec: "find_slot intervals max_i nodes acc len (i + 1)
            = Inr (nodes', acc', len', i')"
          by (simp add: find_slot.simps[of _ _ _ _ _ i])
        from "1.IH"(1)[OF lt v ge h None rec gn ga an]
        have "list_all good nodes' \<and> good acc' \<and> acc' \<noteq> None
         \<and> length nodes' = length nodes \<and> i + 1 \<le> i'
         \<and> (\<forall>j. unat i' \<le> j \<longrightarrow> nodes' ! j = nodes ! j)" .
        with ii show ?thesis by auto
      next
        case (Some n)
        with res lt v ge h obtain nodes1 acc1 len1 where
          cs: "concat_slot intervals nodes i acc = Inr (nodes1, acc1, len1)"
          and rec: "find_slot intervals max_i nodes1 acc1 len1 (i + 1)
            = Inr (nodes', acc', len', i')"
          by (simp add: find_slot.simps[of _ _ _ _ _ i] split: sum.splits prod.splits)
        from concat_slot_good[OF cs gn ga]
        have g1: "list_all good nodes1" and a1: "good acc1" "acc1 \<noteq> None"
          and l1: "length nodes1 = length nodes"
          and u1: "\<forall>j. j \<noteq> unat i \<longrightarrow> nodes1 ! j = nodes ! j" by auto
        from "1.IH"(2)[OF lt v ge h Some cs refl refl rec g1 a1]
        have r: "list_all good nodes' \<and> good acc' \<and> acc' \<noteq> None
         \<and> length nodes' = length nodes1 \<and> i + 1 \<le> i'
         \<and> (\<forall>j. unat i' \<le> j \<longrightarrow> nodes' ! j = nodes1 ! j)" .
        then have "unat i < unat i'" using ui by (simp add: word_le_nat_alt)
        with r u1 l1 ii show ?thesis by auto
      qed
    qed
  qed
qed

lemma place_leaf_good:
  assumes "place_leaf intervals max_i nodes acc len i cm = Some y"
  shows "place_post nodes acc i cm y"
proof (rule place_leaf.raw_induct[where P = "\<lambda>intervals max_i nodes acc len i cm y.
          place_post nodes acc i cm y", OF _ assms])
  fix place_leaf intervals max_i nodes acc len i cm y
  assume IH: "\<And>max_i nodes acc len i cm b y.
        place_leaf max_i nodes acc len i cm b = Some y \<Longrightarrow> place_post acc len cm b y"
    and body: "(case find_slot intervals max_i nodes acc len i of Inl e \<Rightarrow> Some (Inl e)
      | Inr (nodes1, acc1, len1, i1) \<Rightarrow>
          case vec_at nodes1 i1 of Inl e \<Rightarrow> Some (Inl e)
          | Inr None \<Rightarrow>
              Some (Inr (nodes1[unat i1 := acc1], if cm < i1 then i1 else cm))
          | Inr (Some n) \<Rightarrow>
              case concat_slot intervals nodes1 i1 acc1 of
              Inl e \<Rightarrow> Some (Inl e)
              | Inr (nodes2, acc2, len2) \<Rightarrow>
                  place_leaf intervals max_i nodes2 acc2 len2 i1 cm) = Some y"
  show "place_post nodes acc i cm y"
    unfolding place_post_def
  proof (intro allI impI)
    fix nodes'' cm''
    assume y: "y = Inr (nodes'', cm'')" and gn: "list_all good nodes" and ga: "good acc"
      and an: "acc \<noteq> None"
      and pre: "cm \<le> i \<or> (unat cm < length nodes \<and> nodes ! unat cm \<noteq> None)"
    obtain nodes1 acc1 len1 i1 where
      fs: "find_slot intervals max_i nodes acc len i = Inr (nodes1, acc1, len1, i1)"
    proof (cases "find_slot intervals max_i nodes acc len i")
      case (Inl e)
      with body y show ?thesis by simp
    next
      case (Inr p)
      then show ?thesis using that by (cases p) auto
    qed
    from find_slot_good[OF fs gn ga an]
    have g1: "list_all good nodes1" and a1: "good acc1" "acc1 \<noteq> None"
      and l1: "length nodes1 = length nodes" and ii: "i \<le> i1"
      and u1: "\<forall>j. unat i1 \<le> j \<longrightarrow> nodes1 ! j = nodes ! j" by auto
    from body fs have body1:
      "(case vec_at nodes1 i1 of Inl e \<Rightarrow> Some (Inl e)
        | Inr None \<Rightarrow>
            Some (Inr (nodes1[unat i1 := acc1], if cm < i1 then i1 else cm))
        | Inr (Some n) \<Rightarrow>
            (case concat_slot intervals nodes1 i1 acc1 of Inl e \<Rightarrow> Some (Inl e)
             | Inr (nodes2, acc2, len2) \<Rightarrow>
                 place_leaf intervals max_i nodes2 acc2 len2 i1 cm)) = Some y"
      by simp
    obtain h where h: "vec_at nodes1 i1 = Inr h"
    proof (cases "vec_at nodes1 i1")
      case (Inl e)
      with body1 y show ?thesis by simp
    next
      case (Inr h)
      then show ?thesis using that by simp
    qed
    then have i1: "unat i1 < length nodes1" and hh: "h = nodes1 ! unat i1"
      by (auto simp: vec_at_def split: if_splits)
    have pre1: "cm \<le> i1 \<or> (unat cm < length nodes1 \<and> nodes1 ! unat cm \<noteq> None)"
    proof (cases "cm \<le> i1")
      case True
      then show ?thesis by simp
    next
      case False
      then have "unat i1 \<le> unat cm" by (simp add: word_le_nat_alt)
      moreover from False ii have "\<not> cm \<le> i" by auto
      ultimately show ?thesis using pre u1 l1 by auto
    qed
    show "list_all good nodes'' \<and> length nodes'' = length nodes
              \<and> unat cm'' < length nodes'' \<and> nodes'' ! unat cm'' \<noteq> None"
    proof (cases h)
      case None
      with body1 y h have
        n'': "nodes'' = nodes1[unat i1 := acc1]"
        and cm'': "cm'' = (if cm < i1 then i1 else cm)"
        by simp_all
      have A: "list_all good nodes''"
        using g1 a1 i1 unfolding n'' by (auto simp: list_all_length nth_list_update)
      have B: "length nodes'' = length nodes" unfolding n'' using l1 by simp
      have C: "unat cm'' < length nodes'' \<and> nodes'' ! unat cm'' \<noteq> None"
      proof (cases "cm < i1")
        case True
        then show ?thesis using a1 i1 unfolding n'' cm'' by simp
      next
        case False
        then have le: "i1 \<le> cm" by simp
        show ?thesis
        proof (cases "i1 = cm")
          case True
          then show ?thesis using a1 i1 unfolding n'' cm'' by simp
        next
          case ne: False
          with le have "i1 < cm" by simp
          then have "\<not> cm \<le> i1" by simp
          with pre1 have "unat cm < length nodes1" "nodes1 ! unat cm \<noteq> None" by auto
          moreover from ne have "unat i1 \<noteq> unat cm" using word_unat_eq_iff[of i1 cm] by blast
          ultimately show ?thesis using False unfolding n'' cm'' by simp
        qed
      qed
      from A B C show ?thesis by simp
    next
      case (Some n)
      with body1 h have body2:
        "(case concat_slot intervals nodes1 i1 acc1 of Inl e \<Rightarrow> Some (Inl e)
          | Inr (nodes2, acc2, len2) \<Rightarrow>
              place_leaf intervals max_i nodes2 acc2 len2 i1 cm) = Some y"
        by simp
      obtain nodes2 acc2 len2 where
        cs: "concat_slot intervals nodes1 i1 acc1 = Inr (nodes2, acc2, len2)"
      proof (cases "concat_slot intervals nodes1 i1 acc1")
        case (Inl e)
        with body2 y show ?thesis by simp
      next
        case (Inr p)
        then show ?thesis using that by (cases p) auto
      qed
      with body2 y have
        rec: "place_leaf intervals max_i nodes2 acc2 len2 i1 cm = Some (Inr (nodes'', cm''))"
        by simp
      from concat_slot_good[OF cs g1 a1(1)]
      have g2: "list_all good nodes2" and a2: "good acc2" "acc2 \<noteq> None"
        and l2: "length nodes2 = length nodes1"
        and u2: "\<forall>j. j \<noteq> unat i1 \<longrightarrow> nodes2 ! j = nodes1 ! j" by auto
      have pre2: "cm \<le> i1 \<or> (unat cm < length nodes2 \<and> nodes2 ! unat cm \<noteq> None)"
      proof (cases "cm \<le> i1")
        case True
        then show ?thesis by simp
      next
        case False
        then have "cm \<noteq> i1" by auto
        then have "unat cm \<noteq> unat i1" using word_unat_eq_iff[of cm i1] by blast
        with False pre1 u2 l2 show ?thesis by auto
      qed
      from IH[OF rec] g2 a2 pre2 l2 l1
      show ?thesis unfolding place_post_def by auto
    qed
  qed
qed

lemma getLeaves_good:
  assumes "wf n"
  shows "\<forall>lf \<in> set (getLeaves n). wf lf \<and> rspine lf"
  using assms
proof (induction n)
  case (rope_node w l r frag)
  show ?case
  proof (cases "l = None \<and> r = None")
    case True
    with rope_node.prems show ?thesis by simp
  next
    case False
    with rope_node.prems obtain l' where l: "l = Some l'" and wl: "wf l'" and wr: "handle_wf r"
      by (cases r) (auto split: option.splits)
    from rope_node.IH(1)[of l'] l wl
    have 1: "\<forall>lf \<in> set (getLeaves l'). wf lf \<and> rspine lf" by simp
    show ?thesis
    proof (cases r)
      case None
      with l 1 show ?thesis by simp
    next
      case (Some r')
      with wr rope_node.IH(2)[of r']
      have "\<forall>lf \<in> set (getLeaves r'). wf lf \<and> rspine lf" by simp
      with l Some 1 show ?thesis by auto
    qed
  qed
qed

lemma getLeaves_all_empty:
  assumes "wf n" and "fits (treeToString n)"
    and "\<forall>lf \<in> set (getLeaves n). getLength lf = 0"
  shows "treeToString n = []"
  using assms
proof (induction n)
  case (rope_node w l r frag)
  note wfn = rope_node.prems(1) and ft = rope_node.prems(2) and em = rope_node.prems(3)
  show ?case
  proof (cases "l = None \<and> r = None")
    case True
    from ft True have "length frag < 2 ^ 64" by (simp add: fits_def)
    with wfn True have "unat w = length frag" by (simp add: unat_of_nat_fits)
    moreover from em True have "w = 0" by simp
    ultimately show ?thesis using True by simp
  next
    case False
    with wfn obtain l' where l: "l = Some l'" and wl: "wf l'" and wr: "handle_wf r"
      by (cases r) (auto split: option.splits)
    have str: "treeToString (rope_node w l r frag) = treeToString l' @ handle_string r"
      using l by (simp add: tts_Some del: treeToString.simps)
    have bnd: "length (treeToString l') + length (handle_string r) < 2 ^ 64"
      using ft unfolding str fits_def by simp
    have fl: "fits (treeToString l')" using bnd by (simp add: fits_def)
    have el: "\<forall>lf \<in> set (getLeaves l'). getLength lf = 0"
      using em l by (cases r) auto
    from rope_node.IH(1)[of l'] l wl fl el have L: "treeToString l' = []" by simp
    have R: "handle_string r = []"
    proof (cases r)
      case None
      then show ?thesis by simp
    next
      case (Some r')
      have "fits (treeToString r')" using bnd Some by (simp add: fits_def)
      moreover have "\<forall>lf \<in> set (getLeaves r'). getLength lf = 0"
        using em l Some by auto
      ultimately show ?thesis using rope_node.IH(2)[of r'] Some wr by simp
    qed
    from L R show ?thesis unfolding str by simp
  qed
qed

lemma place_leaves_good:
  assumes "place_leaves intervals max_i leaves nodes cm = Some (Inr (nodes', cm'))"
    and "list_all good nodes" and "\<forall>lf \<in> set leaves. wf lf \<and> rspine lf"
    and "cm = 0 \<or> (unat cm < length nodes \<and> nodes ! unat cm \<noteq> None)"
  shows "list_all good nodes' \<and> length nodes' = length nodes
         \<and> ((\<exists>lf \<in> set leaves. getLength lf \<noteq> 0)
               \<or> (unat cm < length nodes \<and> nodes ! unat cm \<noteq> None)
             \<longrightarrow> unat cm' < length nodes' \<and> nodes' ! unat cm' \<noteq> None)"
  using assms
proof (induction leaves arbitrary: nodes cm)
  case Nil
  then show ?case by simp
next
  case (Cons lf leaves)
  note res = Cons.prems(1) and gn = Cons.prems(2) and gl = Cons.prems(3) and pre = Cons.prems(4)
  from gl have gl': "\<forall>lf \<in> set leaves. wf lf \<and> rspine lf" and glf: "wf lf" "rspine lf"
    by simp_all
  show ?case
  proof (cases "getLength lf = 0")
    case True
    with res have "place_leaves intervals max_i leaves nodes cm = Some (Inr (nodes', cm'))"
      by simp
    from Cons.IH[OF this gn gl' pre] True show ?thesis by auto
  next
    case False
    then have pos: "0 < getLength lf" by (simp add: word_neq_0_conv)
    with res obtain y where
      pl: "place_leaf intervals max_i nodes (Some (copy_node lf)) (getLength lf) 0 cm = Some y"
      by (cases "place_leaf intervals max_i nodes (Some (copy_node lf)) (getLength lf) 0 cm")
         (simp_all add: Let_def)
    with res pos obtain nodes1 cm1 where y: "y = Inr (nodes1, cm1)"
      and rec: "place_leaves intervals max_i leaves nodes1 cm1 = Some (Inr (nodes', cm'))"
      by (cases y) (auto simp: Let_def)
    have "good (Some (copy_node lf))" using glf by (simp add: copy_node_id)
    moreover from pre have "cm \<le> 0 \<or> (unat cm < length nodes \<and> nodes ! unat cm \<noteq> None)"
      by auto
    ultimately have g1: "list_all good nodes1" and l1: "length nodes1 = length nodes"
      and s1: "unat cm1 < length nodes1 \<and> nodes1 ! unat cm1 \<noteq> None"
      using place_leaf_good[OF pl] y gn unfolding place_post_def by auto
    from s1 have pre1: "cm1 = 0 \<or> (unat cm1 < length nodes1 \<and> nodes1 ! unat cm1 \<noteq> None)"
      by simp
    from Cons.IH[OF rec g1 gl' pre1] s1 l1 show ?thesis by auto
  qed
qed

lemma join_slot_good:
  assumes "join_slot nodes acc idx = Inr acc'" and "list_all good nodes" and "good acc"
  shows "good acc' \<and> (acc \<noteq> None \<longrightarrow> acc' \<noteq> None)"
proof -
  from assms(1) obtain h where h: "vec_at nodes (of_nat idx) = Inr h"
    by (cases "vec_at nodes (of_nat idx)") (simp_all add: join_slot_def)
  then have gh: "good h" using assms(2)
    by (auto simp: vec_at_def list_all_length split: if_splits)
  show ?thesis
  proof (cases h)
    case None
    with assms(1) h have "acc' = acc" by (simp add: join_slot_def)
    with assms(3) show ?thesis by simp
  next
    case (Some n)
    with assms(1) h obtain a where a: "acc = Some a"
      and acc': "acc' = Some (rope_node (getLength a) (Some a) (Some n) [])"
      by (cases acc) (auto simp: join_slot_def concat_node_def copy_node_id)
    from gh Some have gn: "wf n" "rspine n" by simp_all
    from assms(3) a have "wf a" by simp
    then have "wf (rope_node (getLength a) (Some a) (Some n) [])"
      by (rule concat_wf) (simp add: gn)
    moreover have "rspine (rope_node (getLength a) (Some a) (Some n) [])" using gn by simp
    ultimately show ?thesis unfolding acc' by (simp del: wf.simps rspine.simps)
  qed
qed

lemma join_slots_good:
  assumes "join_slots nodes acc idx = Inr acc'" and "list_all good nodes" and "good acc"
  shows "good acc' \<and> (acc \<noteq> None \<longrightarrow> acc' \<noteq> None)"
  using assms
proof (induction idx arbitrary: acc)
  case 0
  then show ?case using join_slot_good[of nodes acc 0 acc'] by simp
next
  case (Suc idx)
  from Suc.prems(1) obtain acc1 where j: "join_slot nodes acc (Suc idx) = Inr acc1"
    and rec: "join_slots nodes acc1 idx = Inr acc'"
    by (cases "join_slot nodes acc (Suc idx)") simp_all
  from join_slot_good[OF j Suc.prems(2,3)]
  have g1: "good acc1" and n1: "acc \<noteq> None \<longrightarrow> acc1 \<noteq> None" by simp_all
  from Suc.IH[OF rec Suc.prems(2) g1] n1 show ?case by simp
qed

lemma balance_inv:
  assumes inv: "rope_inv r" and ft: "fits (toString r)"
    and res: "balance r = Some (None, r')"
  shows "rope_inv r'"
proof -
  from inv obtain n where rt: "root r = Some n" and wfn: "wf n" and rsn: "rspine n"
    by (auto simp: rope_inv_root)
  have ftn: "fits (treeToString n)" using ft rt by (simp add: toString_def)
  from res obtain bal where bal: "isBalanced r = Some bal"
    by (cases "isBalanced r") (simp_all add: balance_def)
  show ?thesis
  proof (cases bal)
    case True
    with res bal have "r' = r" by (simp add: balance_def)
    with inv show ?thesis by simp
  next
    case False
    with res bal obtain intervals where iv: "buildFibList (length_rope r) = Some intervals"
      by (cases "buildFibList (length_rope r)") (simp_all add: balance_def)
    let ?nodes = "replicate (length intervals) None :: handle list"
    let ?max_i = "of_nat (length intervals) - 1 :: size_t"
    from res bal False iv rt obtain y where
      pl: "place_leaves intervals ?max_i (getLeaves n) ?nodes 0 = Some y"
      by (cases "place_leaves intervals ?max_i (getLeaves n) ?nodes 0")
         (simp_all add: balance_def Let_def)
    from res bal False iv rt pl obtain nodes' cm where y: "y = Inr (nodes', cm)"
      by (cases y) (auto simp: balance_def Let_def)
    from res bal False iv rt pl y have rest:
      "(case vec_at nodes' cm of
          Inl e \<Rightarrow> Some (Some e, r)
        | Inr acc \<Rightarrow>
            (let idx = (ucast cm :: cint) in
             if 0 \<le>s idx then
               (case join_slots (nodes'[unat cm := None]) acc (nat (sint idx)) of
                  Inl e \<Rightarrow> Some (Some e, r)
                | Inr acc' \<Rightarrow> Some (None, \<lparr>root = acc'\<rparr>))
             else Some (None, \<lparr>root = acc\<rparr>))) = Some (None, r')"
      by (simp add: balance_def Let_def)
    then obtain acc where va: "vec_at nodes' cm = Inr acc"
      by (cases "vec_at nodes' cm") simp_all
    then have cml: "unat cm < length nodes'" and acc: "acc = nodes' ! unat cm"
      by (auto simp: vec_at_def split: if_splits)
    have g0: "list_all good ?nodes" by (simp add: list_all_length)
    from place_leaves_good[OF pl[unfolded y] g0 getLeaves_good[OF wfn]]
    have g': "list_all good nodes'" and l': "length nodes' = length intervals"
      and occ: "(\<exists>lf \<in> set (getLeaves n). getLength lf \<noteq> 0)
                 \<longrightarrow> nodes' ! unat cm \<noteq> None"
      by auto
    have ne: "\<exists>lf \<in> set (getLeaves n). getLength lf \<noteq> 0"
    proof (rule ccontr)
      assume "\<not> (\<exists>lf \<in> set (getLeaves n). getLength lf \<noteq> 0)"
      then have "\<forall>lf \<in> set (getLeaves n). getLength lf = 0" by simp
      from getLeaves_all_empty[OF wfn ftn this] have "treeToString n = []" .
      then have "length_rope r = 0" using rt wfn by (simp add: length_rope_def getLength_wf)
      with iv have "intervals = []" by (simp add: buildFibList_0)
      with l' cml show False by simp
    qed
    with occ acc have an: "acc \<noteq> None" by simp
    from g' cml acc have ga: "good acc" by (simp add: list_all_length)
    have final: "good (root r') \<and> root r' \<noteq> None"
    proof (cases "0 \<le>s (ucast cm :: cint)")
      case True
      with rest va obtain acc' where
        j: "join_slots (nodes'[unat cm := None]) acc (nat (sint (ucast cm :: cint))) = Inr acc'"
        and r': "r' = \<lparr>root = acc'\<rparr>"
        by (cases "join_slots (nodes'[unat cm := None]) acc (nat (sint (ucast cm :: cint)))")
           (simp_all add: Let_def)
      have "list_all good (nodes'[unat cm := None])"
        using g' cml by (auto simp: list_all_length nth_list_update)
      from join_slots_good[OF j this ga] an r' show ?thesis by simp
    next
      case False
      with rest va have "r' = \<lparr>root = acc\<rparr>" by (simp add: Let_def)
      with ga an show ?thesis by simp
    qed
    then show ?thesis by (cases "root r'") (simp_all add: rope_inv_def)
  qed
qed

lemma splitAt_too_far:
  assumes "wf n" and "fits (treeToString n)" and "rspine n"
    and "length (treeToString n) < unat i"
  shows "splitAt (Some n) i = Inl StdOutOfRange"
  using assms
proof (induction n arbitrary: i)
  case (rope_node w l r frag)
  note wfn = rope_node.prems(1) and ft = rope_node.prems(2) and rs = rope_node.prems(3)
    and gt = rope_node.prems(4)
  show ?case
  proof (cases "l = None \<and> r = None")
    case True
    with gt have "length frag < unat i" by simp
    then show ?thesis using True by (simp add: substr_def)
  next
    case False
    with wfn obtain l' where l: "l = Some l'"
      and w0: "w = of_nat (length (treeToString l'))"
      by (cases r) (auto split: option.splits)
    from False rs obtain r' where r: "r = Some r'" and rs': "rspine r'"
      by (cases r) auto
    from wfn l r have wr': "wf r'" by simp
    have str: "treeToString (rope_node w l r frag) = treeToString l' @ treeToString r'"
      using l r by simp
    have bnd: "length (treeToString l') + length (treeToString r') < 2 ^ 64"
      using ft unfolding str fits_def by simp
    have w: "unat w = length (treeToString l')"
      using w0 bnd by (simp add: unat_of_nat_fits)
    have fr: "fits (treeToString r')" using bnd by (simp add: fits_def)
    have gt2: "length (treeToString l') + length (treeToString r') < unat i"
      using gt unfolding str by simp
    then have wlt: "w < i" using w by (simp add: word_less_nat_alt)
    then have nlt: "\<not> i < w" by simp
    from wlt have sub: "unat (i - w) = unat i - unat w" by (simp add: unat_sub)
    have gt': "length (treeToString r') < unat (i - w)" using sub gt2 w by simp
    from rope_node.IH(2)[of r' "i - w"] r wr' fr rs' gt'
    have "splitAt (Some r') (i - w) = Inl StdOutOfRange" by simp
    with nlt wlt l r show ?thesis by simp
  qed
qed

lemma rdelete_success_in_range:
  assumes inv: "rope_inv r" and ft: "fits (toString r)"
    and res: "rdelete r s l = (None, r')"
  shows "unat s + unat l \<le> length (toString r)"
proof (rule ccontr)
  assume "\<not> unat s + unat l \<le> length (toString r)"
  then have far: "length (toString r) < unat s + unat l" by simp
  from inv obtain n where rt: "root r = Some n" and wfn: "wf n" and rsn: "rspine n"
    by (auto simp: rope_inv_root)
  have ts: "toString r = treeToString n" using rt by (simp add: toString_def)
  have ftn: "fits (treeToString n)" using ft by (simp add: ts)
  have len: "unat (length_rope r) = length (treeToString n)"
    using length_rope_wf[OF rt wfn ft] ts by simp
  from res have chk: "\<not> length_rope r < s"
    by (auto simp: rdelete_def Let_def split: if_splits)
  then have le1: "unat s \<le> length (treeToString n)"
    using len by (simp add: word_less_nat_alt)
  from splitAt_wf[OF wfn ftn le1] rsn obtain a m where
    sp1: "splitAt (Some n) s = Inr (Some a, Some m)" and wm: "wf m"
    and sm: "treeToString m = drop (unat s) (treeToString n)"
    and rsm: "rspine m" by force
  have ftm: "fits (treeToString m)" using ftn by (simp add: sm fits_def)
  have "length (treeToString m) < unat l" using far le1 by (simp add: sm ts)
  from splitAt_too_far[OF wm ftm rsm this]
  have "splitAt (Some m) l = Inl StdOutOfRange" .
  with res sp1 rt show False
    by (auto simp: rdelete_def Let_def split: if_splits)
qed

lemma reachable_inv:
  assumes "reachable r"
  shows "rope_inv r \<and> fits (toString r)"
  using assms
proof (induction rule: reachable.induct)
  case (reach_string str)
  then show ?case by (simp add: rope_of_string_inv toString_rope_of_string)
next
  case (reach_copy r r')
  then obtain n where "root r = Some n" by (auto simp: rope_inv_root)
  with reach_copy have "r' = \<lparr>root = Some n\<rparr>" by (simp add: rope_copy_Some)
  with reach_copy.IH \<open>root r = Some n\<close> show ?case
    by (simp add: rope_inv_def toString_def)
next
  case (reach_assign rhs n)
  then show ?case by (simp add: rope_inv_def toString_def copy_node_id)
next
  case (reach_insert this r i this')
  from reach_insert.IH obtain n where rt: "root this = Some n" and wfn: "wf n"
    by (auto simp: rope_inv_root)
  from reach_insert.hyps(3) have "\<not> length_rope this < i"
    by (auto simp: insert_rope_def split: if_splits)
  then have "unat i \<le> length (toString this)"
    using length_rope_less[OF rt wfn, of i] reach_insert.IH by simp
  from insert_rope_inv[OF _ _ _ this, of r] reach_insert.IH reach_insert.hyps(3,4)
  show ?case by simp
next
  case (reach_append this r this')
  from append_rope_inv[of this r] reach_append.IH reach_append.hyps(3,4)
  show ?case by simp
next
  case (reach_rdelete this start len this')
  from reach_rdelete.IH have inv: "rope_inv this" and ft: "fits (toString this)" by simp_all
  from rdelete_success_in_range[OF inv ft reach_rdelete.hyps(2)]
  have le: "unat start + unat len \<le> length (toString this)" .
  from rdelete_inv[OF inv ft le] reach_rdelete.hyps(2) have 1: "rope_inv this'" by simp
  from rdelete_result[OF inv ft le] reach_rdelete.hyps(2) obtain a b where
    this': "this' = \<lparr>root = Some (rope_node (getLength a) (Some a) (Some b) [])\<rparr>"
    and sa: "treeToString a = take (unat start) (toString this)"
    and sb: "treeToString b = drop (unat start + unat len) (toString this)" by auto
  have "toString this' = treeToString a @ treeToString b"
    unfolding this' by (simp add: toString_def)
  with sa sb ft have 2: "fits (toString this')" by (simp add: fits_def)
  from 1 2 show ?case by simp
next
  case (reach_balance this this')
  from balance_inv[of this this'] reach_balance.IH reach_balance.hyps(2,3)
  show ?case by simp
qed

section \<open>The heap functions compute the value functions\<close>

subsection \<open>Represented trees\<close>

lemma rep_None_iff: "rep h None t A \<longleftrightarrow> t = None \<and> A = {}"
  by (auto elim: rep.cases intro: rep_null)

lemma rep_null_tree_iff: "rep h p None A \<longleftrightarrow> p = None \<and> A = {}"
  by (auto elim: rep.cases intro: rep_null)

lemma rep_Some_iff:
  "rep h (Some p) (Some (rope_node w l r frag)) A \<longleftrightarrow>
     p < length h \<and> cweight (h ! p) = w \<and> cfragment (h ! p) = frag
     \<and> (\<exists>Al Ar. rep h (cleft (h ! p)) l Al \<and> rep h (cright (h ! p)) r Ar
           \<and> p \<notin> Al \<and> p \<notin> Ar \<and> Al \<inter> Ar = {} \<and> A = insert p (Al \<union> Ar))"
proof
  assume "rep h (Some p) (Some (rope_node w l r frag)) A"
  then show "p < length h \<and> cweight (h ! p) = w \<and> cfragment (h ! p) = frag
     \<and> (\<exists>Al Ar. rep h (cleft (h ! p)) l Al \<and> rep h (cright (h ! p)) r Ar
           \<and> p \<notin> Al \<and> p \<notin> Ar \<and> Al \<inter> Ar = {} \<and> A = insert p (Al \<union> Ar))"
    by (cases rule: rep.cases) blast
next
  assume "p < length h \<and> cweight (h ! p) = w \<and> cfragment (h ! p) = frag
     \<and> (\<exists>Al Ar. rep h (cleft (h ! p)) l Al \<and> rep h (cright (h ! p)) r Ar
           \<and> p \<notin> Al \<and> p \<notin> Ar \<and> Al \<inter> Ar = {} \<and> A = insert p (Al \<union> Ar))"
  then show "rep h (Some p) (Some (rope_node w l r frag)) A"
    by (auto intro: rep_node)
qed

lemma rep_tree_Some: "rep h node (Some t) A \<Longrightarrow> \<exists>p. node = Some p"
  by (cases node) (auto simp: rep_None_iff)

lemma rep_bound: "rep h p t A \<Longrightarrow> a \<in> A \<Longrightarrow> a < length h"
  by (induction rule: rep.induct) auto

text \<open>A tree is still represented after the heap has changed elsewhere.\<close>

lemma rep_frame:
  assumes "rep h p t A" and "length h \<le> length h'" and "\<forall>a \<in> A. h' ! a = h ! a"
  shows "rep h' p t A"
  using assms
proof (induction rule: rep.induct)
  case (rep_null h)
  show ?case by (rule rep.rep_null)
next
  case (rep_node p h w frag l Al r Ar)
  have eq: "h' ! p = h ! p" using rep_node.prems by simp
  have 1: "rep h' (cleft (h' ! p)) l Al" using rep_node eq by simp
  have 2: "rep h' (cright (h' ! p)) r Ar" using rep_node eq by simp
  show ?case
    using rep_node.hyps rep_node.prems eq 1 2 by (intro rep.rep_node) auto
qed

lemma rep_leaf_iff:
  assumes "rep h (cleft (h ! p)) l Al" and "rep h (cright (h ! p)) r Ar"
  shows "h_isLeaf h p \<longleftrightarrow> l = None \<and> r = None"
  using assms by (cases "cleft (h ! p)"; cases "cright (h ! p)"; cases l; cases r)
    (auto simp: h_isLeaf_def rep_None_iff rep_null_tree_iff)

lemma rep_leaf_cell:
  "rep (h @ [\<lparr>cweight = of_nat (length s), cleft = None, cright = None, cfragment = s\<rparr>])
     (Some (length h)) (Some (leaf s)) {length h}"
proof -
  let ?h = "h @ [\<lparr>cweight = of_nat (length s), cleft = None, cright = None, cfragment = s\<rparr>]"
  have "rep ?h (Some (length h)) (Some (rope_node (of_nat (length s)) None None s))
          (insert (length h) ({} \<union> {}))"
    by (rule rep_node) (simp_all add: rep_null)
  then show ?thesis by (simp add: leaf_def)
qed

lemma length_set [simp]:
  "length (set_left h p l) = length h" "length (set_right h p r) = length h"
  "length (set_weight h p w) = length h"
  by (simp_all add: set_left_def set_right_def set_weight_def)

lemma nth_set_other [simp]:
  "x \<noteq> p \<Longrightarrow> set_left h p l ! x = h ! x"
  "x \<noteq> p \<Longrightarrow> set_right h p r ! x = h ! x"
  "x \<noteq> p \<Longrightarrow> set_weight h p w ! x = h ! x"
  by (simp_all add: set_left_def set_right_def set_weight_def)

lemma nth_set_same [simp]:
  "p < length h \<Longrightarrow> set_left h p l ! p = (h ! p)\<lparr>cleft := l\<rparr>"
  "p < length h \<Longrightarrow> set_right h p r ! p = (h ! p)\<lparr>cright := r\<rparr>"
  "p < length h \<Longrightarrow> set_weight h p w ! p = (h ! p)\<lparr>cweight := w\<rparr>"
  by (simp_all add: set_left_def set_right_def set_weight_def)

lemma ext_refl: "ext h A h"
  by (simp add: ext_def)

lemma ext_trans:
  assumes "ext h A h1" and "ext h1 B h2" and "\<And>x. x \<in> B \<Longrightarrow> x \<in> A \<or> length h \<le> x"
  shows "ext h A h2"
  unfolding ext_def
proof (intro conjI allI impI)
  show "length h \<le> length h2" using assms(1,2) by (simp add: ext_def)
  fix x assume x: "x < length h" "x \<notin> A"
  then have "x \<notin> B" using assms(3) by fastforce
  moreover have "x < length h1" using x assms(1) by (simp add: ext_def)
  ultimately have "h2 ! x = h1 ! x" using assms(2) by (simp add: ext_def)
  also have "h1 ! x = h ! x" using x assms(1) by (simp add: ext_def)
  finally show "h2 ! x = h ! x" .
qed

lemma ext_length: "ext h A h' \<Longrightarrow> length h \<le> length h'"
  by (simp add: ext_def)

lemma ext_leaf: "ext h A (h @ [c])"
  by (simp add: ext_def nth_append)

lemma rep_ext:
  assumes "rep h p t B" and "ext h A h'" and "A \<inter> B = {}"
  shows "rep h' p t B"
proof (rule rep_frame[OF assms(1)])
  show "length h \<le> length h'" using assms(2) by (simp add: ext_def)
  show "\<forall>a\<in>B. h' ! a = h ! a"
    using assms(2,3) rep_bound[OF assms(1)] by (auto simp: ext_def)
qed

subsection \<open>Nodes\<close>

text \<open>On a represented tree the heap functions return, and return what the functions
  on values return.\<close>

lemma h_getLength_rep:
  assumes "rep h (Some p) (Some t) A"
  shows "h_getLength h p = Some (Inr (getLength t))"
  using assms
proof (induction t arbitrary: p A)
  case (rope_node w l r frag)
  from rope_node.prems obtain Al Ar where
    p: "p < length h" and w: "cweight (h ! p) = w"
    and rl: "rep h (cleft (h ! p)) l Al" and rr: "rep h (cright (h ! p)) r Ar"
    by (auto simp: rep_Some_iff)
  note lf = rep_leaf_iff[OF rl rr]
  show ?case
  proof (cases "l = None \<and> r = None")
    case True
    with lf p w show ?thesis by (simp add: h_getLength.simps[of h p])
  next
    case False
    show ?thesis
    proof (cases r)
      case None
      with rr have "cright (h ! p) = None" by (simp add: rep_null_tree_iff)
      moreover from False lf have "\<not> h_isLeaf h p" by simp
      ultimately show ?thesis using None False p w by (simp add: h_getLength.simps[of h p])
    next
      case (Some r')
      with rr obtain pr where pr: "cright (h ! p) = Some pr"
        by (cases "cright (h ! p)") (auto simp: rep_None_iff)
      from rope_node.IH(2)[of r' pr Ar] rr Some pr
      have "h_getLength h pr = Some (Inr (getLength r'))" by simp
      moreover from False lf have "\<not> h_isLeaf h p" by simp
      ultimately show ?thesis using Some p w pr by (simp add: h_getLength.simps[of h p])
    qed
  qed
qed

lemma h_treeToString_rep:
  assumes "rep h (Some p) (Some t) A"
  shows "h_treeToString h p = Some (Inr (treeToString t))"
  using assms
proof (induction t arbitrary: p A)
  case (rope_node w l r frag)
  from rope_node.prems obtain Al Ar where
    p: "p < length h" and f: "cfragment (h ! p) = frag"
    and rl: "rep h (cleft (h ! p)) l Al" and rr: "rep h (cright (h ! p)) r Ar"
    by (auto simp: rep_Some_iff)
  note lf = rep_leaf_iff[OF rl rr]
  show ?case
  proof (cases "l = None \<and> r = None")
    case True
    with lf p f show ?thesis by (simp add: h_treeToString.simps[of h p])
  next
    case False
    have L: "(case cleft (h ! p) of None \<Rightarrow> Some (Inr []) | Some pl \<Rightarrow> h_treeToString h pl)
               = Some (Inr (handle_string l))"
    proof (cases l)
      case None
      with rl show ?thesis by (simp add: rep_null_tree_iff)
    next
      case (Some l')
      with rl obtain pl where pl: "cleft (h ! p) = Some pl"
        by (cases "cleft (h ! p)") (auto simp: rep_None_iff)
      from rope_node.IH(1)[of l' pl Al] rl Some pl show ?thesis by simp
    qed
    have R: "(case cright (h ! p) of None \<Rightarrow> Some (Inr []) | Some pr \<Rightarrow> h_treeToString h pr)
               = Some (Inr (handle_string r))"
    proof (cases r)
      case None
      with rr show ?thesis by (simp add: rep_null_tree_iff)
    next
      case (Some r')
      with rr obtain pr where pr: "cright (h ! p) = Some pr"
        by (cases "cright (h ! p)") (auto simp: rep_None_iff)
      from rope_node.IH(2)[of r' pr Ar] rr Some pr show ?thesis by simp
    qed
    have tts: "treeToString (rope_node w l r frag) = handle_string l @ handle_string r"
      using False by (cases l; cases r) auto
    from False lf have nl: "\<not> h_isLeaf h p" by simp
    show ?thesis unfolding tts using nl p L R by (simp add: h_treeToString.simps[of h p])
  qed
qed

text \<open>The clone is a tree of the same value, all of its nodes are new, and the heap
  below them is as it was.\<close>

lemma h_copy_rep:
  assumes "rep h (Some p) (Some t) A"
  shows "\<exists>h' A'. h_copy h p = Some (h', Inr (length h))
           \<and> rep h' (Some (length h)) (Some (copy_node t)) A'
           \<and> (\<forall>x \<in> A'. length h \<le> x) \<and> length h < length h'
           \<and> (\<forall>x < length h. h' ! x = h ! x)"
  using assms
proof (induction t arbitrary: h p A)
  case (rope_node w l r frag)
  from rope_node.prems obtain Al Ar where
    p: "p < length h" and w: "cweight (h ! p) = w" and f: "cfragment (h ! p) = frag"
    and rl: "rep h (cleft (h ! p)) l Al" and rr: "rep h (cright (h ! p)) r Ar"
    by (auto simp: rep_Some_iff)
  let ?a = "length h"
  let ?h0 = "h @ [\<lparr>cweight = w, cleft = None, cright = None, cfragment = frag\<rparr>]"
  let ?l' = "case l of None \<Rightarrow> None | Some l' \<Rightarrow> Some (copy_node l')"
  let ?r' = "case r of None \<Rightarrow> None | Some r' \<Rightarrow> Some (copy_node r')"
  let ?L = "case cleft (h ! p) of
              None \<Rightarrow> Some (?h0, Inr ?a)
            | Some tmpLeft \<Rightarrow>
                Option.bind (h_copy ?h0 tmpLeft)
                  (\<lambda>(h1, res). case res of
                     Inl e \<Rightarrow> Some (h1, Inl e)
                   | Inr l' \<Rightarrow> Some (set_left h1 ?a (Some l'), Inr ?a))"
  have L: "\<exists>h1 Al'. ?L = Some (h1, Inr ?a)
             \<and> rep h1 (cleft (h1 ! ?a)) ?l' Al' \<and> (\<forall>x \<in> Al'. ?a < x)
             \<and> ?a < length h1 \<and> (\<forall>x < ?a. h1 ! x = h ! x)
             \<and> cweight (h1 ! ?a) = w \<and> cfragment (h1 ! ?a) = frag \<and> cright (h1 ! ?a) = None"
  proof (cases l)
    case None
    with rl have "cleft (h ! p) = None" by (simp add: rep_null_tree_iff)
    with None show ?thesis
      by (intro exI[of _ ?h0] exI[of _ "{}"]) (simp add: rep_null nth_append)
  next
    case (Some l1)
    with rl obtain pl where pl: "cleft (h ! p) = Some pl"
      by (cases "cleft (h ! p)") (auto simp: rep_None_iff)
    have "rep ?h0 (Some pl) (Some l1) Al"
      using rl Some pl
      by (intro rep_frame[of h "Some pl" "Some l1" Al ?h0])
         (auto simp: nth_append dest: rep_bound)
    from rope_node.IH(1)[of l1 ?h0 pl Al, OF _ this] Some
    obtain h1 Al' where
      c: "h_copy ?h0 pl = Some (h1, Inr (length ?h0))"
      and r1: "rep h1 (Some (length ?h0)) (Some (copy_node l1)) Al'"
      and b1: "\<forall>x \<in> Al'. length ?h0 \<le> x" and g1: "length ?h0 < length h1"
      and u1: "\<forall>x < length ?h0. h1 ! x = ?h0 ! x" by auto
    let ?h1 = "set_left h1 ?a (Some (length ?h0))"
    have a1: "?a < length h1" using g1 by simp
    have cell: "h1 ! ?a = \<lparr>cweight = w, cleft = None, cright = None, cfragment = frag\<rparr>"
      using u1 by simp
    have "rep ?h1 (Some (length ?h0)) (Some (copy_node l1)) Al'"
      using r1 b1 by (intro rep_frame[OF r1]) auto
    moreover have "\<forall>x < ?a. ?h1 ! x = h ! x" using u1 by (simp add: nth_append)
    moreover have "\<forall>x \<in> Al'. ?a < x" using b1 by auto
    ultimately show ?thesis
      using pl c Some a1 cell
      by (intro exI[of _ ?h1] exI[of _ Al']) simp
  qed
  then obtain h1 Al' where
    L1: "?L = Some (h1, Inr ?a)" and rl1: "rep h1 (cleft (h1 ! ?a)) ?l' Al'"
    and bl1: "\<forall>x \<in> Al'. ?a < x" and a1: "?a < length h1"
    and u1: "\<forall>x < ?a. h1 ! x = h ! x"
    and c1: "cweight (h1 ! ?a) = w" "cfragment (h1 ! ?a) = frag" "cright (h1 ! ?a) = None"
    by blast
  let ?R = "case cright (h ! p) of
              None \<Rightarrow> Some (h1, Inr ?a)
            | Some tmpRight \<Rightarrow>
                Option.bind (h_copy h1 tmpRight)
                  (\<lambda>(h2, res). case res of
                     Inl e \<Rightarrow> Some (h2, Inl e)
                   | Inr r' \<Rightarrow> Some (set_right h2 ?a (Some r'), Inr ?a))"
  have R: "\<exists>h2 Ar'. ?R = Some (h2, Inr ?a)
             \<and> rep h2 (cright (h2 ! ?a)) ?r' Ar' \<and> (\<forall>x \<in> Ar'. length h1 \<le> x)
             \<and> length h1 \<le> length h2 \<and> (\<forall>x < length h1. x \<noteq> ?a \<longrightarrow> h2 ! x = h1 ! x)
             \<and> cweight (h2 ! ?a) = w \<and> cfragment (h2 ! ?a) = frag
             \<and> cleft (h2 ! ?a) = cleft (h1 ! ?a)"
  proof (cases r)
    case None
    with rr have "cright (h ! p) = None" by (simp add: rep_null_tree_iff)
    with None c1 show ?thesis
      by (intro exI[of _ h1] exI[of _ "{}"]) (simp add: rep_null)
  next
    case (Some r1)
    with rr obtain pr where pr: "cright (h ! p) = Some pr"
      by (cases "cright (h ! p)") (auto simp: rep_None_iff)
    have "rep h1 (Some pr) (Some r1) Ar"
      using rr Some pr u1 a1
      by (intro rep_frame[of h "Some pr" "Some r1" Ar h1]) (auto dest: rep_bound)
    from rope_node.IH(2)[of r1 h1 pr Ar, OF _ this] Some
    obtain h2 Ar' where
      c: "h_copy h1 pr = Some (h2, Inr (length h1))"
      and r2: "rep h2 (Some (length h1)) (Some (copy_node r1)) Ar'"
      and b2: "\<forall>x \<in> Ar'. length h1 \<le> x" and g2: "length h1 < length h2"
      and u2: "\<forall>x < length h1. h2 ! x = h1 ! x" by auto
    let ?h2 = "set_right h2 ?a (Some (length h1))"
    have a2: "?a < length h2" using g2 a1 by simp
    have "rep ?h2 (Some (length h1)) (Some (copy_node r1)) Ar'"
      using r2 b2 a1 by (intro rep_frame[OF r2]) auto
    moreover have "\<forall>x < length h1. x \<noteq> ?a \<longrightarrow> ?h2 ! x = h1 ! x" using u2 by simp
    moreover have "h2 ! ?a = h1 ! ?a" using u2 a1 by simp
    ultimately show ?thesis
      using pr c Some a2 c1 b2 g2
      by (intro exI[of _ ?h2] exI[of _ Ar']) simp
  qed
  then obtain h2 Ar' where
    R1: "?R = Some (h2, Inr ?a)" and rr2: "rep h2 (cright (h2 ! ?a)) ?r' Ar'"
    and br2: "\<forall>x \<in> Ar'. length h1 \<le> x" and g2: "length h1 \<le> length h2"
    and u2: "\<forall>x < length h1. x \<noteq> ?a \<longrightarrow> h2 ! x = h1 ! x"
    and c2: "cweight (h2 ! ?a) = w" "cfragment (h2 ! ?a) = frag"
      "cleft (h2 ! ?a) = cleft (h1 ! ?a)"
    by blast
  have res: "h_copy h p = Some (h2, Inr ?a)"
    using p w f L1 R1 by (simp add: h_copy.simps[of h p] new_cell_def)
  have rl2: "rep h2 (cleft (h2 ! ?a)) ?l' Al'"
    unfolding c2(3) using rl1 g2 u2 bl1
    by (intro rep_frame[OF rl1]) (auto dest: rep_bound[OF rl1])
  have dis: "Al' \<inter> Ar' = {}"
    using br2 rep_bound[OF rl1] by fastforce
  have na: "?a \<notin> Al'" "?a \<notin> Ar'" using bl1 br2 a1 by auto
  have "rep h2 (Some ?a) (Some (rope_node w ?l' ?r' frag)) (insert ?a (Al' \<union> Ar'))"
    using a1 g2 c2 rl2 rr2 na dis by (intro rep_node) auto
  moreover have "\<forall>x \<in> insert ?a (Al' \<union> Ar'). ?a \<le> x" using bl1 br2 a1 by auto
  moreover have "\<forall>x < ?a. h2 ! x = h ! x" using u1 u2 a1 by simp
  moreover have "?a < length h2" using a1 g2 by simp
  ultimately show ?case using res by (intro exI[of _ h2] exI[of _ "insert ?a (Al' \<union> Ar')"]) simp
qed

lemma h_concat_rep:
  assumes "rep h l lt Al" and "rep h r rt Ar" and "Al \<inter> Ar = {}"
  shows "case concat_node lt rt of
           Inl e \<Rightarrow> h_concat h l r = Some (h, Inl e)
         | Inr n \<Rightarrow>
             (\<exists>h'. h_concat h l r = Some (h', Inr (length h))
                \<and> rep h' (Some (length h)) (Some n) (insert (length h) (Al \<union> Ar))
                \<and> length h' = Suc (length h) \<and> (\<forall>x < length h. h' ! x = h ! x))"
proof (cases lt)
  case None
  with assms(1) have "l = None" by (simp add: rep_null_tree_iff)
  with None show ?thesis by (simp add: concat_node_def h_concat_def)
next
  case (Some t)
  with assms(1) obtain pl where pl: "l = Some pl" by (auto dest: rep_tree_Some)
  with assms(1) Some have gl: "h_getLength h pl = Some (Inr (getLength t))"
    by (simp add: h_getLength_rep)
  let ?c = "\<lparr>cweight = getLength t, cleft = Some pl, cright = r, cfragment = []\<rparr>"
  let ?h' = "h @ [?c]"
  have res: "h_concat h l r = Some (?h', Inr (length h))"
    using pl gl by (simp add: h_concat_def new_cell_def)
  have "rep ?h' l lt Al"
    by (rule rep_frame[OF assms(1)]) (auto simp: nth_append dest: rep_bound[OF assms(1)])
  then have rl': "rep ?h' (cleft (?h' ! length h)) lt Al"
    using pl by simp
  have "rep ?h' r rt Ar"
    by (rule rep_frame[OF assms(2)]) (auto simp: nth_append dest: rep_bound[OF assms(2)])
  then have rr': "rep ?h' (cright (?h' ! length h)) rt Ar"
    by simp
  have nl: "length h \<notin> Al" "length h \<notin> Ar"
    using rep_bound[OF assms(1)] rep_bound[OF assms(2)] by auto
  have "rep ?h' (Some (length h)) (Some (rope_node (getLength t) lt rt []))
          (insert (length h) (Al \<union> Ar))"
    using rl' rr' nl assms(3) by (intro rep_node) simp_all
  with res Some show ?thesis
    by (simp add: concat_node_def nth_append)
qed

subsection \<open>Splitting\<close>

lemma split_post_Inl:
  "length h \<le> length h' \<Longrightarrow> (\<And>x. x < length h \<Longrightarrow> x \<notin> A \<Longrightarrow> h' ! x = h ! x)
     \<Longrightarrow> split_post h A h' (Inl e) (Inl e)"
  by (simp add: split_post_def)

lemma split_post_Inr:
  "length h \<le> length h' \<Longrightarrow> (\<And>x. x < length h \<Longrightarrow> x \<notin> A \<Longrightarrow> h' ! x = h ! x)
     \<Longrightarrow> rep h' pa a Aa \<Longrightarrow> rep h' pb b Ab \<Longrightarrow> Aa \<inter> Ab = {}
     \<Longrightarrow> (\<And>x. x \<in> Aa \<union> Ab \<Longrightarrow> x \<in> A \<or> length h \<le> x)
     \<Longrightarrow> split_post h A h' (Inr (pa, pb)) (Inr (a, b))"
  unfolding split_post_def by (simp, blast)

lemma split_post_ext: "split_post h A h' res vres \<Longrightarrow> ext h A h'"
  by (simp add: split_post_def ext_def)

lemma h_splitAt_leaf:
  assumes p: "p < length h" and lf: "h_isLeaf h p"
    and w: "cweight (h ! p) = w" and f: "cfragment (h ! p) = frag"
  shows "\<exists>h' res. h_splitAt h (Some p) i = Some (h', res)
           \<and> split_post h A h' res
               (case substr frag 0 i of
                  Inl e \<Rightarrow> Inl e
                | Inr a \<Rightarrow>
                    (case substr frag i (w - i) of
                       Inl e \<Rightarrow> Inl e
                     | Inr b \<Rightarrow> Inr (Some (leaf a), Some (leaf b))))"
proof (cases "substr frag 0 i")
  case (Inl e)
  then have "h_splitAt h (Some p) i = Some (h, Inl e)"
    using p lf f by (simp add: h_splitAt.simps[of h "Some p" i])
  then show ?thesis using Inl by (simp add: split_post_Inl)
next
  case a: (Inr a)
  let ?ca = "\<lparr>cweight = of_nat (length a), cleft = None, cright = None, cfragment = a\<rparr>"
  let ?h1 = "h @ [?ca]"
  show ?thesis
  proof (cases "substr frag i (w - i)")
    case (Inl e)
    then have "h_splitAt h (Some p) i = Some (?h1, Inl e)"
      using p lf f w a by (simp add: h_splitAt.simps[of h "Some p" i] h_leaf_def new_cell_def)
    moreover have "split_post h A ?h1 (Inl e) (Inl e)"
      by (rule split_post_Inl) (simp_all add: nth_append)
    ultimately show ?thesis using Inl a by simp
  next
    case b: (Inr b)
    let ?cb = "\<lparr>cweight = of_nat (length b), cleft = None, cright = None, cfragment = b\<rparr>"
    let ?h2 = "?h1 @ [?cb]"
    have res: "h_splitAt h (Some p) i = Some (?h2, Inr (Some (length h), Some (Suc (length h))))"
      using p lf f w a b by (simp add: h_splitAt.simps[of h "Some p" i] h_leaf_def new_cell_def)
    have ra: "rep ?h2 (Some (length h)) (Some (leaf a)) {length h}"
      by (rule rep_frame[OF rep_leaf_cell[of h a]]) (simp_all add: nth_append)
    have rb: "rep ?h2 (Some (Suc (length h))) (Some (leaf b)) {Suc (length h)}"
      using rep_leaf_cell[of ?h1 b] by simp
    have "split_post h A ?h2 (Inr (Some (length h), Some (Suc (length h))))
            (Inr (Some (leaf a), Some (leaf b)))"
      by (rule split_post_Inr[OF _ _ ra rb]) (auto simp: nth_append)
    with res a b show ?thesis by simp
  qed
qed

lemma h_splitAt_rep:
  "rep h node nt A \<Longrightarrow>
     \<exists>h' res. h_splitAt h node i = Some (h', res) \<and> split_post h A h' res (splitAt nt i)"
proof (induction nt i arbitrary: h node A rule: splitAt.induct)
  case (1 index)
  then have "node = None" by (simp add: rep_null_tree_iff)
  then show ?case
    by (simp add: h_splitAt.simps[of h None index] split_post_Inl)
next
  case (2 w l r frag index)
  from "2.prems" obtain p where node: "node = Some p" by (auto dest: rep_tree_Some)
  with "2.prems" obtain Al Ar where
    p: "p < length h" and w: "cweight (h ! p) = w" and f: "cfragment (h ! p) = frag"
    and rl: "rep h (cleft (h ! p)) l Al" and rr: "rep h (cright (h ! p)) r Ar"
    and pl: "p \<notin> Al" and pr: "p \<notin> Ar" and dj: "Al \<inter> Ar = {}"
    and A: "A = insert p (Al \<union> Ar)"
    by (auto simp: rep_Some_iff)
  note lf = rep_leaf_iff[OF rl rr]
  note bl = rep_bound[OF rl] and br = rep_bound[OF rr]
  have neL: "\<And>a. a \<in> Al \<Longrightarrow> a \<noteq> p" using pl by auto
  have neR: "\<And>a. a \<in> Ar \<Longrightarrow> a \<noteq> p" using pr by auto
  show ?case
  proof (cases "l = None \<and> r = None")
    case True
    with lf have "h_isLeaf h p" by simp
    from h_splitAt_leaf[OF p this w f, of index A] True node show ?thesis by simp
  next
    case nleaf: False
    with lf have nl: "\<not> h_isLeaf h p" by simp
    consider (lt) "index < w" | (gt) "\<not> index < w" "w < index" | (eq) "\<not> index < w" "\<not> w < index"
      by blast
    then show ?thesis
    proof cases
      case lt
      have val: "splitAt (Some (rope_node w l r frag)) index =
          (case splitAt l index of
             Inl e \<Rightarrow> Inl e
           | Inr (ll, lr) \<Rightarrow>
               (case concat_node lr r of
                  Inl e \<Rightarrow> Inl e
                | Inr c \<Rightarrow> Inr (Some (rope_node index ll None frag), Some c)))"
        by (simp only: splitAt.simps if_not_P[OF nleaf] if_P[OF lt])
      let ?h0 = "set_left (set_weight (set_right h p None) p index) p None"
      have h0p: "?h0 ! p = (h ! p)\<lparr>cright := None, cweight := index, cleft := None\<rparr>"
        using p by simp
      have h0x: "\<And>x. x \<noteq> p \<Longrightarrow> ?h0 ! x = h ! x" by simp
      have rl0: "rep ?h0 (cleft (h ! p)) l Al"
        by (rule rep_frame[OF rl]) (simp_all add: neL)
      from "2.IH"(1)[OF nleaf lt rl0] obtain h1 res1 where
        s1: "h_splitAt ?h0 (cleft (h ! p)) index = Some (h1, res1)"
        and post1: "split_post ?h0 Al h1 res1 (splitAt l index)"
        by blast
      from post1 have len1: "length h \<le> length h1"
        and fr1: "\<And>x. x < length h \<Longrightarrow> x \<notin> Al \<Longrightarrow> h1 ! x = ?h0 ! x"
        by (auto simp: split_post_def)
      have fr1': "\<And>x. x < length h \<Longrightarrow> x \<notin> Al \<Longrightarrow> x \<noteq> p \<Longrightarrow> h1 ! x = h ! x"
        using fr1 h0x by simp
      have h1p: "h1 ! p = (h ! p)\<lparr>cright := None, cweight := index, cleft := None\<rparr>"
        using fr1[OF p pl] h0p by simp
      have unf: "h_splitAt h node index =
          (case res1 of
             Inl e \<Rightarrow> Some (h1, Inl e)
           | Inr (ll, lr) \<Rightarrow>
               Option.bind (h_concat (set_left h1 p ll) lr (cright (h ! p)))
                 (\<lambda>(h2, res). case res of
                    Inl e \<Rightarrow> Some (h2, Inl e)
                  | Inr c \<Rightarrow> Some (h2, Inr (Some p, Some c))))"
        using node p nl lt w s1 by (simp add: h_splitAt.simps[of h "Some p" index])
      show ?thesis
      proof (cases "splitAt l index")
        case (Inl e)
        with post1 have "res1 = Inl e" by (simp add: split_post_def)
        with unf have "h_splitAt h node index = Some (h1, Inl e)" by simp
        moreover have "split_post h A h1 (Inl e) (Inl e)"
          by (rule split_post_Inl[OF len1]) (use fr1' A in auto)
        ultimately show ?thesis unfolding val using Inl by simp
      next
        case (Inr ab)
        obtain ll lr where ab: "ab = (ll, lr)" by (cases ab)
        with Inr post1 obtain pll plr All Alr where
          res1: "res1 = Inr (pll, plr)" and rll: "rep h1 pll ll All" and rlr: "rep h1 plr lr Alr"
          and dj1: "All \<inter> Alr = {}" and sub1: "\<And>x. x \<in> All \<union> Alr \<Longrightarrow> x \<in> Al \<or> length h \<le> x"
          by (auto simp: split_post_def)
        let ?h1' = "set_left h1 p pll"
        have p1: "p < length h1" using p len1 by simp
        have pAll: "p \<notin> All" "p \<notin> Alr" using sub1 pl p by fastforce+
        have neA: "\<And>a. a \<in> All \<Longrightarrow> a \<noteq> p" "\<And>a. a \<in> Alr \<Longrightarrow> a \<noteq> p"
          using pAll by auto
        have h1'p: "?h1' ! p = (h ! p)\<lparr>cright := None, cweight := index, cleft := pll\<rparr>"
          using p1 h1p by simp
        have rlr': "rep ?h1' plr lr Alr"
          by (rule rep_frame[OF rlr]) (simp_all add: neA)
        have rll': "rep ?h1' pll ll All"
          by (rule rep_frame[OF rll]) (simp_all add: neA)
        have rr': "rep ?h1' (cright (h ! p)) r Ar"
        proof (rule rep_frame[OF rr])
          show "length h \<le> length ?h1'" using len1 by simp
          show "\<forall>a\<in>Ar. ?h1' ! a = h ! a"
          proof
            fix a assume a: "a \<in> Ar"
            then have "a \<noteq> p" "a \<notin> Al" "a < length h" using pr dj br by auto
            then show "?h1' ! a = h ! a" using fr1' by simp
          qed
        qed
        have dj2: "Alr \<inter> Ar = {}"
          using sub1 dj br by fastforce
        have unf2: "h_splitAt h node index =
               Option.bind (h_concat ?h1' plr (cright (h ! p)))
                 (\<lambda>(h2, res). case res of
                    Inl e \<Rightarrow> Some (h2, Inl e)
                  | Inr c \<Rightarrow> Some (h2, Inr (Some p, Some c)))"
          using unf res1 by simp
        note cc = h_concat_rep[OF rlr' rr' dj2]
        show ?thesis
        proof (cases "concat_node lr r")
          case (Inl e)
          with cc have "h_concat ?h1' plr (cright (h ! p)) = Some (?h1', Inl e)" by simp
          with unf2 have "h_splitAt h node index = Some (?h1', Inl e)" by simp
          moreover have "split_post h A ?h1' (Inl e) (Inl e)"
          proof (rule split_post_Inl)
            show "length h \<le> length ?h1'" using len1 by simp
            fix x assume "x < length h" "x \<notin> A"
            then show "?h1' ! x = h ! x" using fr1' A by simp
          qed
          ultimately show ?thesis unfolding val using Inl Inr ab by simp
        next
          case c: (Inr c)
          with cc obtain h2 where
            hc: "h_concat ?h1' plr (cright (h ! p)) = Some (h2, Inr (length h1))"
            and rc: "rep h2 (Some (length h1)) (Some c) (insert (length h1) (Alr \<union> Ar))"
            and len2: "length h2 = Suc (length h1)"
            and fr2: "\<And>x. x < length h1 \<Longrightarrow> h2 ! x = ?h1' ! x"
            by auto
          from hc unf2 have res: "h_splitAt h node index = Some (h2, Inr (Some p, Some (length h1)))"
            by simp
          have h2p: "h2 ! p = (h ! p)\<lparr>cright := None, cweight := index, cleft := pll\<rparr>"
            using fr2[OF p1] h1'p by simp
          have rll2: "rep h2 pll ll All"
            by (rule rep_frame[OF rll']) (use len2 fr2 rep_bound[OF rll'] in auto)
          have "rep h2 (Some p) (Some (rope_node index ll None frag)) (insert p (All \<union> {}))"
            by (rule rep_node) (use p1 len2 h2p f rll2 pAll in \<open>simp_all add: rep_null\<close>)
          then have rp: "rep h2 (Some p) (Some (rope_node index ll None frag)) (insert p All)"
            by simp
          have "split_post h A h2 (Inr (Some p, Some (length h1)))
                  (Inr (Some (rope_node index ll None frag), Some c))"
          proof (rule split_post_Inr[OF _ _ rp rc])
            show "length h \<le> length h2" using len1 len2 by simp
          next
            fix x assume x: "x < length h" "x \<notin> A"
            then have "h2 ! x = ?h1' ! x" using fr2 len1 by simp
            then show "h2 ! x = h ! x" using fr1' x A by simp
          next
            have "All \<inter> Ar = {}" using sub1 dj br by fastforce
            moreover have "length h1 \<notin> All" using rep_bound[OF rll] by auto
            moreover have "p \<noteq> length h1" using p1 by simp
            ultimately show "insert p All \<inter> insert (length h1) (Alr \<union> Ar) = {}"
              using pAll pr dj1 by auto
          next
            fix x assume "x \<in> insert p All \<union> insert (length h1) (Alr \<union> Ar)"
            then show "x \<in> A \<or> length h \<le> x"
              using sub1 A len1 by auto
          qed
          with res show ?thesis unfolding val using c Inr ab by simp
        qed
      qed
    next
      case gt
      have val: "splitAt (Some (rope_node w l r frag)) index =
          (case splitAt r (index - w) of
             Inl e \<Rightarrow> Inl e
           | Inr (rl, rr) \<Rightarrow> Inr (Some (rope_node w l rl frag), rr))"
        by (simp only: splitAt.simps if_not_P[OF nleaf] if_not_P[OF gt(1)] if_P[OF gt(2)])
      let ?h0 = "set_right h p None"
      have h0p: "?h0 ! p = (h ! p)\<lparr>cright := None\<rparr>" using p by simp
      have h0x: "\<And>x. x \<noteq> p \<Longrightarrow> ?h0 ! x = h ! x" by simp
      have rr0: "rep ?h0 (cright (h ! p)) r Ar"
        by (rule rep_frame[OF rr]) (simp_all add: neR)
      from "2.IH"(2)[OF nleaf gt rr0] obtain h1 res1 where
        s1: "h_splitAt ?h0 (cright (h ! p)) (index - w) = Some (h1, res1)"
        and post1: "split_post ?h0 Ar h1 res1 (splitAt r (index - w))"
        by blast
      from post1 have len1: "length h \<le> length h1"
        and fr1: "\<And>x. x < length h \<Longrightarrow> x \<notin> Ar \<Longrightarrow> h1 ! x = ?h0 ! x"
        by (auto simp: split_post_def)
      have fr1': "\<And>x. x < length h \<Longrightarrow> x \<notin> Ar \<Longrightarrow> x \<noteq> p \<Longrightarrow> h1 ! x = h ! x"
        using fr1 h0x by simp
      have h1p: "h1 ! p = (h ! p)\<lparr>cright := None\<rparr>"
        using fr1[OF p pr] h0p by simp
      have unf: "h_splitAt h node index =
          (case res1 of
             Inl e \<Rightarrow> Some (h1, Inl e)
           | Inr (rl, rr) \<Rightarrow> Some (set_right h1 p rl, Inr (Some p, rr)))"
        using node p nl gt w s1 by (simp add: h_splitAt.simps[of h "Some p" index])
      show ?thesis
      proof (cases "splitAt r (index - w)")
        case (Inl e)
        with post1 have "res1 = Inl e" by (simp add: split_post_def)
        with unf have "h_splitAt h node index = Some (h1, Inl e)" by simp
        moreover have "split_post h A h1 (Inl e) (Inl e)"
          by (rule split_post_Inl[OF len1]) (use fr1' A in auto)
        ultimately show ?thesis unfolding val using Inl by simp
      next
        case (Inr ab)
        obtain rl' rr' where ab: "ab = (rl', rr')" by (cases ab)
        with Inr post1 obtain prl prr Arl Arr where
          res1: "res1 = Inr (prl, prr)" and rrl: "rep h1 prl rl' Arl" and rrr: "rep h1 prr rr' Arr"
          and dj1: "Arl \<inter> Arr = {}" and sub1: "\<And>x. x \<in> Arl \<union> Arr \<Longrightarrow> x \<in> Ar \<or> length h \<le> x"
          by (auto simp: split_post_def)
        let ?h' = "set_right h1 p prl"
        have p1: "p < length h1" using p len1 by simp
        have pArl: "p \<notin> Arl" "p \<notin> Arr" using sub1 pr p by fastforce+
        have neA: "\<And>a. a \<in> Arl \<Longrightarrow> a \<noteq> p" "\<And>a. a \<in> Arr \<Longrightarrow> a \<noteq> p"
          using pArl by auto
        have h'p: "?h' ! p = (h ! p)\<lparr>cright := prl\<rparr>"
          using p1 h1p by simp
        have res: "h_splitAt h node index = Some (?h', Inr (Some p, prr))"
          using unf res1 by simp
        have rrl': "rep ?h' prl rl' Arl"
          by (rule rep_frame[OF rrl]) (simp_all add: neA)
        have rrr': "rep ?h' prr rr' Arr"
          by (rule rep_frame[OF rrr]) (simp_all add: neA)
        have rl': "rep ?h' (cleft (h ! p)) l Al"
        proof (rule rep_frame[OF rl])
          show "length h \<le> length ?h'" using len1 by simp
          show "\<forall>a\<in>Al. ?h' ! a = h ! a"
          proof
            fix a assume a: "a \<in> Al"
            then have "a \<noteq> p" "a \<notin> Ar" "a < length h" using pl dj bl by auto
            then show "?h' ! a = h ! a" using fr1' by simp
          qed
        qed
        have djl: "Al \<inter> Arl = {}" "Al \<inter> Arr = {}" using sub1 dj bl by fastforce+
        have rp: "rep ?h' (Some p) (Some (rope_node w l rl' frag)) (insert p (Al \<union> Arl))"
          by (rule rep_node) (use p1 h'p w f rl' rrl' pl pArl djl in simp_all)
        have "split_post h A ?h' (Inr (Some p, prr)) (Inr (Some (rope_node w l rl' frag), rr'))"
        proof (rule split_post_Inr[OF _ _ rp rrr'])
          show "length h \<le> length ?h'" using len1 by simp
        next
          fix x assume x: "x < length h" "x \<notin> A"
          then show "?h' ! x = h ! x" using fr1' A by simp
        next
          show "insert p (Al \<union> Arl) \<inter> Arr = {}" using pArl djl dj1 by auto
        next
          fix x assume "x \<in> insert p (Al \<union> Arl) \<union> Arr"
          then show "x \<in> A \<or> length h \<le> x" using sub1 A by auto
        qed
        with res show ?thesis unfolding val using Inr ab by simp
      qed
    next
      case eq
      have val: "splitAt (Some (rope_node w l r frag)) index = Inr (l, r)"
        by (simp only: splitAt.simps if_not_P[OF nleaf] if_not_P[OF eq(1)] if_not_P[OF eq(2)])
      let ?h' = "set_left (set_right h p None) p None"
      have res: "h_splitAt h node index = Some (?h', Inr (cleft (h ! p), cright (h ! p)))"
        using node p nl eq w by (simp add: h_splitAt.simps[of h "Some p" w])
      have rl': "rep ?h' (cleft (h ! p)) l Al"
        by (rule rep_frame[OF rl]) (simp_all add: neL)
      have rr': "rep ?h' (cright (h ! p)) r Ar"
        by (rule rep_frame[OF rr]) (simp_all add: neR)
      have "split_post h A ?h' (Inr (cleft (h ! p), cright (h ! p))) (Inr (l, r))"
        by (rule split_post_Inr[OF _ _ rl' rr' dj]) (use A in auto)
      with res show ?thesis unfolding val by simp
    qed
  qed
qed

subsection \<open>Ropes\<close>

lemma rope_eta: "\<lparr>root = root r\<rparr> = (r::rope)"
  by (cases r) simp

lemma tree_simI:
  "res = Some (h', e, p') \<Longrightarrow> m = (e, \<lparr>root = t'\<rparr>) \<Longrightarrow> rep h' p' t' F' \<Longrightarrow> ext h Ft h'
     \<Longrightarrow> (\<And>x. x \<in> F' \<Longrightarrow> x \<in> Ft \<or> length h \<le> x) \<Longrightarrow> tree_sim h Ft res m"
  unfolding tree_sim_def by auto

lemma tree_sim_pre:
  assumes "ext h {} h0" and "tree_sim h0 Ft res m"
  shows "tree_sim h Ft res m"
proof -
  from assms(2) obtain h' p' F' where
    r: "res = Some (h', fst m, p')" and rp: "rep h' p' (root (snd m)) F'"
    and e: "ext h0 Ft h'" and s: "\<And>x. x \<in> F' \<Longrightarrow> x \<in> Ft \<or> length h0 \<le> x"
    unfolding tree_sim_def by blast
  have e0: "ext h Ft h0" using assms(1) by (simp add: ext_def)
  have "ext h Ft h'" by (rule ext_trans[OF e0 e]) simp
  moreover have "\<forall>x \<in> F'. x \<in> Ft \<or> length h \<le> x"
    using s ext_length[OF assms(1)] by fastforce
  ultimately show ?thesis using r rp unfolding tree_sim_def by blast
qed

lemma h_length_rep: "rep h p t A \<Longrightarrow> h_length h p = Some (Inr (length_rope \<lparr>root = t\<rparr>))"
  by (cases t; cases p)
     (auto simp: h_length_def length_rope_def rep_None_iff rep_null_tree_iff h_getLength_rep)

lemma h_toString_rep: "rep h p t A \<Longrightarrow> h_toString h p = Some (Inr (toString \<lparr>root = t\<rparr>))"
  by (cases t; cases p)
     (auto simp: h_toString_def toString_def rep_None_iff rep_null_tree_iff h_treeToString_rep)

lemma h_rope_copy_rep:
  assumes "rep h r tr Fr"
  shows "case rope_copy \<lparr>root = tr\<rparr> of
           Inl e \<Rightarrow> h_rope_copy h r = Some (h, Inl e)
         | Inr tmp \<Rightarrow>
             (\<exists>h' q A'. h_rope_copy h r = Some (h', Inr q) \<and> rep h' (Some q) (root tmp) A'
                \<and> (\<forall>x \<in> A'. length h \<le> x) \<and> ext h {} h')"
proof (cases tr)
  case None
  with assms have "r = None" by (simp add: rep_null_tree_iff)
  with None show ?thesis by (simp add: rope_copy_def h_rope_copy_def)
next
  case (Some t)
  with assms obtain p where p: "r = Some p" by (auto dest: rep_tree_Some)
  from h_copy_rep[of h p t Fr] assms Some p obtain h1 A1 where
    c1: "h_copy h p = Some (h1, Inr (length h))"
    and r1: "rep h1 (Some (length h)) (Some (copy_node t)) A1"
    and l1: "length h < length h1" and u1: "\<forall>x < length h. h1 ! x = h ! x"
    by auto
  from h_copy_rep[OF r1] obtain h2 A2 where
    c2: "h_copy h1 (length h) = Some (h2, Inr (length h1))"
    and r2: "rep h2 (Some (length h1)) (Some (copy_node (copy_node t))) A2"
    and b2: "\<forall>x \<in> A2. length h1 \<le> x"
    and l2: "length h1 < length h2" and u2: "\<forall>x < length h1. h2 ! x = h1 ! x"
    by auto
  have "h_rope_copy h r = Some (h2, Inr (length h1))"
    using p c1 c2 by (simp add: h_rope_copy_def)
  moreover have "ext h {} h2" using l1 l2 u1 u2 by (simp add: ext_def)
  moreover have "\<forall>x \<in> A2. length h \<le> x" using b2 l1 by fastforce
  ultimately show ?thesis using Some r2 by (simp add: rope_copy_def) blast
qed

lemma h_insert_rope_sim:
  assumes rt: "rep h this (root tv) Ft" and rr: "rep h r (root rv) Fr"
  shows "tree_sim h Ft (h_insert_rope h this i r) (insert_rope tv i rv)"
proof -
  have len: "h_length h this = Some (Inr (length_rope tv))"
    using h_length_rep[OF rt] by (simp add: rope_eta)
  note bt = rep_bound[OF rt]
  show ?thesis
  proof (cases "length_rope tv < i")
    case True
    then have "h_insert_rope h this i r = Some (h, Some InvalidArgument, this)"
      using len by (simp add: h_insert_rope_def)
    moreover have "insert_rope tv i rv = (Some InvalidArgument, \<lparr>root = root tv\<rparr>)"
      using True by (simp add: insert_rope_def rope_eta)
    ultimately show ?thesis
      by (rule tree_simI[OF _ _ rt ext_refl]) simp
  next
    case ge: False
    have cp: "case rope_copy rv of
           Inl e \<Rightarrow> h_rope_copy h r = Some (h, Inl e)
         | Inr tmp \<Rightarrow>
             (\<exists>h' q A'. h_rope_copy h r = Some (h', Inr q) \<and> rep h' (Some q) (root tmp) A'
                \<and> (\<forall>x \<in> A'. length h \<le> x) \<and> ext h {} h')"
      using h_rope_copy_rep[OF rr] by (simp add: rope_eta)
    show ?thesis
    proof (cases "rope_copy rv")
      case (Inl e)
      with cp have "h_rope_copy h r = Some (h, Inl e)" by simp
      then have "h_insert_rope h this i r = Some (h, Some e, this)"
        using len ge by (simp add: h_insert_rope_def)
      moreover have "insert_rope tv i rv = (Some e, \<lparr>root = root tv\<rparr>)"
        using ge Inl by (simp add: insert_rope_def rope_eta)
      ultimately show ?thesis
        by (rule tree_simI[OF _ _ rt ext_refl]) simp
    next
      case tmp: (Inr tmp)
      with cp obtain h1 q A1 where
        c1: "h_rope_copy h r = Some (h1, Inr q)" and rq: "rep h1 (Some q) (root tmp) A1"
        and b1: "\<And>x. x \<in> A1 \<Longrightarrow> length h \<le> x" and e1: "ext h {} h1"
        by auto
      have rt1: "rep h1 this (root tv) Ft" by (rule rep_ext[OF rt e1]) simp
      from h_splitAt_rep[OF rt1, of i] obtain h2 res where
        s: "h_splitAt h1 this i = Some (h2, res)"
        and post: "split_post h1 Ft h2 res (splitAt (root tv) i)"
        by blast
      note e2 = split_post_ext[OF post]
      have e01: "ext h Ft h1" using e1 by (simp add: ext_def)
      have e02: "ext h Ft h2"
        by (rule ext_trans[OF e01 e2]) simp
      have unf: "h_insert_rope h this i r =
          (case res of
             Inl e \<Rightarrow> Some (h2, Some e, None)
           | Inr (first, second) \<Rightarrow>
               Option.bind (h_concat h2 first (Some q))
                 (\<lambda>(h3, res). case res of
                    Inl e \<Rightarrow> Some (h3, Some e, None)
                  | Inr tmpConcat \<Rightarrow>
                      Option.bind (h_concat h3 (Some tmpConcat) second)
                        (\<lambda>(h4, res). case res of
                           Inl e \<Rightarrow> Some (h4, Some e, None)
                         | Inr n \<Rightarrow> Some (h4, None, Some n))))"
        using len ge c1 s by (simp add: h_insert_rope_def)
      have val: "insert_rope tv i rv =
          (case splitAt (root tv) i of
             Inl e \<Rightarrow> (Some e, \<lparr>root = None\<rparr>)
           | Inr (first, second) \<Rightarrow>
               (case concat_node first (root tmp) of
                  Inl e \<Rightarrow> (Some e, \<lparr>root = None\<rparr>)
                | Inr tmpConcat \<Rightarrow>
                    (case concat_node (Some tmpConcat) second of
                       Inl e \<Rightarrow> (Some e, \<lparr>root = None\<rparr>)
                     | Inr n \<Rightarrow> (None, \<lparr>root = Some n\<rparr>))))"
        using ge tmp by (simp add: insert_rope_def)
      show ?thesis
      proof (cases "splitAt (root tv) i")
        case (Inl e)
        with post have "res = Inl e" by (simp add: split_post_def)
        with unf have "h_insert_rope h this i r = Some (h2, Some e, None)" by simp
        moreover have "insert_rope tv i rv = (Some e, \<lparr>root = None\<rparr>)"
          using val Inl by simp
        ultimately show ?thesis
          by (rule tree_simI[OF _ _ rep_null e02]) simp
      next
        case (Inr ab)
        obtain a b where ab: "ab = (a, b)" by (cases ab)
        with Inr post obtain pa pb Aa Ab where
          res: "res = Inr (pa, pb)" and ra: "rep h2 pa a Aa" and rb: "rep h2 pb b Ab"
          and dj: "Aa \<inter> Ab = {}"
          and sub: "\<And>x. x \<in> Aa \<union> Ab \<Longrightarrow> x \<in> Ft \<or> length h1 \<le> x"
          by (auto simp: split_post_def)
        have l01: "length h \<le> length h1" using e1 by (simp add: ext_def)
        have A1Ft: "Ft \<inter> A1 = {}" using bt b1 by fastforce
        have rq2: "rep h2 (Some q) (root tmp) A1" by (rule rep_ext[OF rq e2 A1Ft])
        have bA1: "\<And>x. x \<in> A1 \<Longrightarrow> x < length h1" using rep_bound[OF rq] by simp
        have dja: "Aa \<inter> A1 = {}" "A1 \<inter> Ab = {}"
          using sub bA1 A1Ft by fastforce+
        note cc = h_concat_rep[OF ra rq2 dja(1)]
        show ?thesis
        proof (cases "concat_node a (root tmp)")
          case (Inl e)
          with cc have "h_concat h2 pa (Some q) = Some (h2, Inl e)" by simp
          with unf res have "h_insert_rope h this i r = Some (h2, Some e, None)" by simp
          moreover have "insert_rope tv i rv = (Some e, \<lparr>root = None\<rparr>)"
            using val Inr ab Inl by simp
          ultimately show ?thesis
            by (rule tree_simI[OF _ _ rep_null e02]) simp
        next
          case n: (Inr n)
          with cc obtain h3 where
            c3: "h_concat h2 pa (Some q) = Some (h3, Inr (length h2))"
            and rn: "rep h3 (Some (length h2)) (Some n) (insert (length h2) (Aa \<union> A1))"
            and l3: "length h3 = Suc (length h2)"
            and u3: "\<And>x. x < length h2 \<Longrightarrow> h3 ! x = h2 ! x"
            by auto
          have e3: "ext h2 {} h3" using l3 u3 by (simp add: ext_def)
          have rb3: "rep h3 pb b Ab" by (rule rep_ext[OF rb e3]) simp
          have dj3: "insert (length h2) (Aa \<union> A1) \<inter> Ab = {}"
            using rep_bound[OF rb] dj dja by auto
          note cc2 = h_concat_rep[OF rn rb3 dj3]
          have unf2: "h_insert_rope h this i r =
                      Option.bind (h_concat h3 (Some (length h2)) pb)
                        (\<lambda>(h4, res). case res of
                           Inl e \<Rightarrow> Some (h4, Some e, None)
                         | Inr n \<Rightarrow> Some (h4, None, Some n))"
            using unf res c3 by simp
          have e03: "ext h Ft h3"
            by (rule ext_trans[OF e02 e3]) simp
          show ?thesis
          proof (cases "concat_node (Some n) b")
            case (Inl e)
            with cc2 have "h_concat h3 (Some (length h2)) pb = Some (h3, Inl e)" by simp
            with unf2 have "h_insert_rope h this i r = Some (h3, Some e, None)" by simp
            moreover have "insert_rope tv i rv = (Some e, \<lparr>root = None\<rparr>)"
              using val Inr ab n Inl by simp
            ultimately show ?thesis
              by (rule tree_simI[OF _ _ rep_null e03]) simp
          next
            case m: (Inr m)
            with cc2 obtain h4 where
              c4: "h_concat h3 (Some (length h2)) pb = Some (h4, Inr (length h3))"
              and rm: "rep h4 (Some (length h3)) (Some m)
                         (insert (length h3) (insert (length h2) (Aa \<union> A1) \<union> Ab))"
              and l4: "length h4 = Suc (length h3)"
              and u4: "\<And>x. x < length h3 \<Longrightarrow> h4 ! x = h3 ! x"
              by auto
            have e4: "ext h3 {} h4" using l4 u4 by (simp add: ext_def)
            have e04: "ext h Ft h4"
              by (rule ext_trans[OF e03 e4]) simp
            have "h_insert_rope h this i r = Some (h4, None, Some (length h3))"
              using unf2 c4 by simp
            moreover have "insert_rope tv i rv = (None, \<lparr>root = Some m\<rparr>)"
              using val Inr ab n m by simp
            ultimately show ?thesis
            proof (rule tree_simI[OF _ _ rm e04])
              fix x assume "x \<in> insert (length h3) (insert (length h2) (Aa \<union> A1) \<union> Ab)"
              moreover have "length h \<le> length h2" "length h \<le> length h3"
                using l01 e2 l3 by (auto simp: ext_def)
              ultimately show "x \<in> Ft \<or> length h \<le> x"
                using sub b1 l01 by fastforce
            qed
          qed
        qed
      qed
    qed
  qed
qed

lemma h_insert_string_sim:
  assumes rt: "rep h this (root tv) Ft"
  shows "tree_sim h Ft (h_insert_string h this i str) (insert_string tv i str)"
proof -
  let ?h0 = "h @ [\<lparr>cweight = of_nat (length str), cleft = None, cright = None, cfragment = str\<rparr>]"
  have e: "ext h {} ?h0" by (rule ext_leaf)
  have rt0: "rep ?h0 this (root tv) Ft" by (rule rep_ext[OF rt e]) simp
  have rl: "rep ?h0 (Some (length h)) (root (rope_of_string str)) {length h}"
    using rep_leaf_cell[of h str] by (simp add: rope_of_string_def)
  have "tree_sim ?h0 Ft (h_insert_rope ?h0 this i (Some (length h)))
          (insert_rope tv i (rope_of_string str))"
    by (rule h_insert_rope_sim[OF rt0 rl])
  from tree_sim_pre[OF e this] show ?thesis
    by (simp add: h_insert_string_def h_leaf_def new_cell_def insert_string_def)
qed

text \<open>The common end of both \<^verbatim>\<open>append\<close> overloads.\<close>

lemma h_append_tail:
  assumes rt: "rep h1 this t Ft" and rq: "rep h1 (Some q) tq A1" and dj: "Ft \<inter> A1 = {}"
    and e: "ext h Ft h1" and b: "\<And>x. x \<in> A1 \<Longrightarrow> length h \<le> x"
  shows "tree_sim h Ft
           (Option.bind (h_concat h1 this (Some q))
              (\<lambda>(h2, res). case res of
                 Inl e \<Rightarrow> Some (h2, Some e, None)
               | Inr n \<Rightarrow> Some (h2, None, Some n)))
           (case concat_node t tq of
              Inl e \<Rightarrow> (Some e, \<lparr>root = None\<rparr>)
            | Inr n \<Rightarrow> (None, \<lparr>root = Some n\<rparr>))"
proof (cases "concat_node t tq")
  case (Inl e)
  with h_concat_rep[OF rt rq dj] have "h_concat h1 this (Some q) = Some (h1, Inl e)" by simp
  then have "Option.bind (h_concat h1 this (Some q))
              (\<lambda>(h2, res). case res of
                 Inl e \<Rightarrow> Some (h2, Some e, None)
               | Inr n \<Rightarrow> Some (h2, None, Some n)) = Some (h1, Some e, None)"
    by simp
  then show ?thesis unfolding Inl sum.case
    by (rule tree_simI[OF _ refl rep_null e]) simp
next
  case (Inr n)
  with h_concat_rep[OF rt rq dj] obtain h2 where
    c: "h_concat h1 this (Some q) = Some (h2, Inr (length h1))"
    and rn: "rep h2 (Some (length h1)) (Some n) (insert (length h1) (Ft \<union> A1))"
    and l: "length h2 = Suc (length h1)" and u: "\<And>x. x < length h1 \<Longrightarrow> h2 ! x = h1 ! x"
    by auto
  have e2: "ext h1 {} h2" using l u by (simp add: ext_def)
  have e02: "ext h Ft h2" by (rule ext_trans[OF e e2]) simp
  from c have "Option.bind (h_concat h1 this (Some q))
              (\<lambda>(h2, res). case res of
                 Inl e \<Rightarrow> Some (h2, Some e, None)
               | Inr n \<Rightarrow> Some (h2, None, Some n)) = Some (h2, None, Some (length h1))"
    by simp
  then show ?thesis unfolding Inr sum.case
  proof (rule tree_simI[OF _ refl rn e02])
    fix x assume "x \<in> insert (length h1) (Ft \<union> A1)"
    then show "x \<in> Ft \<or> length h \<le> x" using b ext_length[OF e] by auto
  qed
qed

lemma h_append_string_sim:
  assumes rt: "rep h this (root tv) Ft"
  shows "tree_sim h Ft (h_append_string h this str) (append_string tv str)"
proof -
  let ?h0 = "h @ [\<lparr>cweight = of_nat (length str), cleft = None, cright = None, cfragment = str\<rparr>]"
  have e: "ext h Ft ?h0" by (rule ext_leaf)
  have rt0: "rep ?h0 this (root tv) Ft" by (rule rep_ext[OF rt ext_leaf[of h "{}"]]) simp
  have rl: "rep ?h0 (Some (length h)) (Some (leaf str)) {length h}"
    by (rule rep_leaf_cell)
  have dj: "Ft \<inter> {length h} = {}" using rep_bound[OF rt] by auto
  from h_append_tail[OF rt0 rl dj e] show ?thesis
    by (simp add: h_append_string_def h_leaf_def new_cell_def append_string_def
          rope_of_string_def)
qed

lemma h_append_rope_sim:
  assumes rt: "rep h this (root tv) Ft" and rr: "rep h r (root rv) Fr"
  shows "tree_sim h Ft (h_append_rope h this r) (append_rope tv rv)"
proof -
  have cp: "case rope_copy rv of
         Inl e \<Rightarrow> h_rope_copy h r = Some (h, Inl e)
       | Inr tmp \<Rightarrow>
           (\<exists>h' q A'. h_rope_copy h r = Some (h', Inr q) \<and> rep h' (Some q) (root tmp) A'
              \<and> (\<forall>x \<in> A'. length h \<le> x) \<and> ext h {} h')"
    using h_rope_copy_rep[OF rr] by (simp add: rope_eta)
  show ?thesis
  proof (cases "rope_copy rv")
    case (Inl e)
    with cp have "h_rope_copy h r = Some (h, Inl e)" by simp
    then have "h_append_rope h this r = Some (h, Some e, this)"
      by (simp add: h_append_rope_def)
    moreover have "append_rope tv rv = (Some e, \<lparr>root = root tv\<rparr>)"
      using Inl by (simp add: append_rope_def rope_eta)
    ultimately show ?thesis
      by (rule tree_simI[OF _ _ rt ext_refl]) simp
  next
    case tmp: (Inr tmp)
    with cp obtain h1 q A1 where
      c1: "h_rope_copy h r = Some (h1, Inr q)" and rq: "rep h1 (Some q) (root tmp) A1"
      and b1: "\<And>x. x \<in> A1 \<Longrightarrow> length h \<le> x" and e1: "ext h {} h1"
      by auto
    have rt1: "rep h1 this (root tv) Ft" by (rule rep_ext[OF rt e1]) simp
    have e01: "ext h Ft h1" using e1 by (simp add: ext_def)
    have dj: "Ft \<inter> A1 = {}" using rep_bound[OF rt] b1 by fastforce
    from h_append_tail[OF rt1 rq dj e01 b1] show ?thesis
      using c1 tmp by (simp add: h_append_rope_def append_rope_def)
  qed
qed

lemma h_rdelete_sim:
  assumes rt: "rep h this (root tv) Ft"
  shows "tree_sim h Ft (h_rdelete h this start len) (rdelete tv start len)"
proof -
  have len: "h_length h this = Some (Inr (length_rope tv))"
    using h_length_rep[OF rt] by (simp add: rope_eta)
  show ?thesis
  proof (cases "start > length_rope tv \<or> start + len > length_rope tv")
    case True
    then have "h_rdelete h this start len = Some (h, Some InvalidArgument, this)"
      using len by (simp add: h_rdelete_def)
    moreover have "rdelete tv start len = (Some InvalidArgument, \<lparr>root = root tv\<rparr>)"
      using True by (simp add: rdelete_def rope_eta)
    ultimately show ?thesis
      by (rule tree_simI[OF _ _ rt ext_refl]) simp
  next
    case ok: False
    from h_splitAt_rep[OF rt, of start] obtain h1 res1 where
      s1: "h_splitAt h this start = Some (h1, res1)"
      and post1: "split_post h Ft h1 res1 (splitAt (root tv) start)"
      by blast
    note e1 = split_post_ext[OF post1]
    have unf: "h_rdelete h this start len =
        (case res1 of
           Inl e \<Rightarrow> Some (h1, Some e, None)
         | Inr (first1, second1) \<Rightarrow>
             Option.bind (h_splitAt h1 second1 len)
               (\<lambda>(h2, res). case res of
                  Inl e \<Rightarrow> Some (h2, Some e, None)
                | Inr (first2, second2) \<Rightarrow>
                    Option.bind (h_concat h2 first1 second2)
                      (\<lambda>(h3, res). case res of
                         Inl e \<Rightarrow> Some (h3, Some e, None)
                       | Inr n \<Rightarrow> Some (h3, None, Some n))))"
      using len ok s1 by (simp add: h_rdelete_def)
    have val: "rdelete tv start len =
        (case splitAt (root tv) start of
           Inl e \<Rightarrow> (Some e, \<lparr>root = None\<rparr>)
         | Inr (first1, second1) \<Rightarrow>
             (case splitAt second1 len of
                Inl e \<Rightarrow> (Some e, \<lparr>root = None\<rparr>)
              | Inr (first2, second2) \<Rightarrow>
                  (case concat_node first1 second2 of
                     Inl e \<Rightarrow> (Some e, \<lparr>root = None\<rparr>)
                   | Inr n \<Rightarrow> (None, \<lparr>root = Some n\<rparr>))))"
      using ok by (simp add: rdelete_def)
    show ?thesis
    proof (cases "splitAt (root tv) start")
      case (Inl e)
      with post1 have "res1 = Inl e" by (simp add: split_post_def)
      with unf have "h_rdelete h this start len = Some (h1, Some e, None)" by simp
      moreover have "rdelete tv start len = (Some e, \<lparr>root = None\<rparr>)"
        using val Inl by simp
      ultimately show ?thesis
        by (rule tree_simI[OF _ _ rep_null e1]) simp
    next
      case (Inr ab)
      obtain a b where ab: "ab = (a, b)" by (cases ab)
      with Inr post1 obtain pa pb Aa Ab where
        res1: "res1 = Inr (pa, pb)" and ra: "rep h1 pa a Aa" and rb: "rep h1 pb b Ab"
        and dj: "Aa \<inter> Ab = {}"
        and sub: "\<And>x. x \<in> Aa \<union> Ab \<Longrightarrow> x \<in> Ft \<or> length h \<le> x"
        by (auto simp: split_post_def)
      from h_splitAt_rep[OF rb, of len] obtain h2 res2 where
        s2: "h_splitAt h1 pb len = Some (h2, res2)"
        and post2: "split_post h1 Ab h2 res2 (splitAt b len)"
        by blast
      note e2 = split_post_ext[OF post2]
      have e02: "ext h Ft h2"
        by (rule ext_trans[OF e1 e2]) (use sub in auto)
      have unf2: "h_rdelete h this start len =
          (case res2 of
             Inl e \<Rightarrow> Some (h2, Some e, None)
           | Inr (first2, second2) \<Rightarrow>
               Option.bind (h_concat h2 pa second2)
                 (\<lambda>(h3, res). case res of
                    Inl e \<Rightarrow> Some (h3, Some e, None)
                  | Inr n \<Rightarrow> Some (h3, None, Some n)))"
        using unf res1 s2 by simp
      show ?thesis
      proof (cases "splitAt b len")
        case (Inl e)
        with post2 have "res2 = Inl e" by (simp add: split_post_def)
        with unf2 have "h_rdelete h this start len = Some (h2, Some e, None)" by simp
        moreover have "rdelete tv start len = (Some e, \<lparr>root = None\<rparr>)"
          using val Inr ab Inl by simp
        ultimately show ?thesis
          by (rule tree_simI[OF _ _ rep_null e02]) simp
      next
        case cd: (Inr cd)
        obtain c d where cd': "cd = (c, d)" by (cases cd)
        with cd post2 obtain pc pd Ac Ad where
          res2: "res2 = Inr (pc, pd)" and rc: "rep h2 pc c Ac" and rd: "rep h2 pd d Ad"
          and djcd: "Ac \<inter> Ad = {}"
          and sub2: "\<And>x. x \<in> Ac \<union> Ad \<Longrightarrow> x \<in> Ab \<or> length h1 \<le> x"
          by (auto simp: split_post_def)
        have ra2: "rep h2 pa a Aa" by (rule rep_ext[OF ra e2]) (use dj in auto)
        have dj2: "Aa \<inter> Ad = {}"
          using sub2 dj rep_bound[OF ra] by fastforce
        have unf3: "h_rdelete h this start len =
               Option.bind (h_concat h2 pa pd)
                 (\<lambda>(h3, res). case res of
                    Inl e \<Rightarrow> Some (h3, Some e, None)
                  | Inr n \<Rightarrow> Some (h3, None, Some n))"
          using unf2 res2 by simp
        have val3: "rdelete tv start len =
                  (case concat_node a d of
                     Inl e \<Rightarrow> (Some e, \<lparr>root = None\<rparr>)
                   | Inr n \<Rightarrow> (None, \<lparr>root = Some n\<rparr>))"
          using val Inr ab cd cd' by simp
        note cc = h_concat_rep[OF ra2 rd dj2]
        show ?thesis
        proof (cases "concat_node a d")
          case (Inl e)
          with cc have "h_concat h2 pa pd = Some (h2, Inl e)" by simp
          with unf3 have "h_rdelete h this start len = Some (h2, Some e, None)" by simp
          moreover have "rdelete tv start len = (Some e, \<lparr>root = None\<rparr>)"
            using val3 Inl by simp
          ultimately show ?thesis
            by (rule tree_simI[OF _ _ rep_null e02]) simp
        next
          case n: (Inr n)
          with cc obtain h3 where
            c3: "h_concat h2 pa pd = Some (h3, Inr (length h2))"
            and rn: "rep h3 (Some (length h2)) (Some n) (insert (length h2) (Aa \<union> Ad))"
            and l3: "length h3 = Suc (length h2)"
            and u3: "\<And>x. x < length h2 \<Longrightarrow> h3 ! x = h2 ! x"
            by auto
          have e3: "ext h2 {} h3" using l3 u3 by (simp add: ext_def)
          have e03: "ext h Ft h3" by (rule ext_trans[OF e02 e3]) simp
          have "h_rdelete h this start len = Some (h3, None, Some (length h2))"
            using unf3 c3 by simp
          moreover have "rdelete tv start len = (None, \<lparr>root = Some n\<rparr>)"
            using val3 n by simp
          ultimately show ?thesis
          proof (rule tree_simI[OF _ _ rn e03])
            fix x assume "x \<in> insert (length h2) (Aa \<union> Ad)"
            moreover have "length h \<le> length h1" "length h1 \<le> length h2"
              using e1 e2 by (auto simp: ext_def)
            ultimately show "x \<in> Ft \<or> length h \<le> x"
              using sub sub2 by fastforce
          qed
        qed
      qed
    qed
  qed
qed

subsection \<open>Rope objects\<close>

text \<open>Every member function keeps the ropes apart (\<open>owned\<close>), and does to the values
  of the ropes what the functions on stores of values do.\<close>

lemma owned_rep: "owned st \<sigma> F L \<Longrightarrow> a \<in> L \<Longrightarrow> rep (heap st) (roots st a) (root (\<sigma> a)) (F a)"
  by (simp add: owned_def)

lemma owned_empty: "owned st \<sigma> F {}"
  by (simp add: owned_def)

lemma hs_toString_owned:
  "owned st \<sigma> F L \<Longrightarrow> a \<in> L \<Longrightarrow> hs_toString st a = Some (Inr (toString (\<sigma> a)))"
  using h_toString_rep[of "heap st" "roots st a" "root (\<sigma> a)" "F a"]
  by (simp add: owned_def hs_toString_def rope_eta)

lemma owned_update:
  assumes ow: "owned st \<sigma> F L" and tL: "this \<in> L"
    and rp: "rep h' p' t' F'" and e: "ext (heap st) (F this) h'"
    and sub: "\<And>x. x \<in> F' \<Longrightarrow> x \<in> F this \<or> length (heap st) \<le> x"
  shows "owned \<lparr>heap = h', roots = (roots st)(this := p')\<rparr> (\<sigma>(this := \<lparr>root = t'\<rparr>))
           (F(this := F')) L"
  unfolding owned_def
proof (intro conjI ballI impI)
  fix a assume a: "a \<in> L"
  show "rep (heap \<lparr>heap = h', roots = (roots st)(this := p')\<rparr>)
          (roots \<lparr>heap = h', roots = (roots st)(this := p')\<rparr> a)
          (root ((\<sigma>(this := \<lparr>root = t'\<rparr>)) a)) ((F(this := F')) a)"
  proof (cases "a = this")
    case True
    then show ?thesis using rp by simp
  next
    case False
    from ow a have ra: "rep (heap st) (roots st a) (root (\<sigma> a)) (F a)"
      by (simp add: owned_def)
    from ow a tL False have dj: "F this \<inter> F a = {}" unfolding owned_def by blast
    from rep_ext[OF ra e dj] False show ?thesis by simp
  qed
next
  fix a b assume ab: "a \<in> L" "b \<in> L" "a \<noteq> b"
  have other: "F' \<inter> F c = {}" if c: "c \<in> L" "c \<noteq> this" for c
  proof -
    from ow c have rc: "rep (heap st) (roots st c) (root (\<sigma> c)) (F c)"
      by (simp add: owned_def)
    from ow c tL have "F this \<inter> F c = {}" unfolding owned_def by blast
    then show ?thesis using sub rep_bound[OF rc] by fastforce
  qed
  show "(F(this := F')) a \<inter> (F(this := F')) b = {}"
  proof (cases "a = this")
    case True
    with ab other[of b] show ?thesis by simp
  next
    case na: False
    show ?thesis
    proof (cases "b = this")
      case True
      with ab na other[of a] show ?thesis by auto
    next
      case False
      with na ab ow show ?thesis unfolding owned_def by simp
    qed
  qed
qed

lemma method_call_owned:
  assumes ow: "owned st \<sigma> F L" and tL: "this \<in> L"
    and sim: "tree_sim (heap st) (F this) res m"
  shows "\<exists>st' F'. method_call st this res = Some (fst m, st')
           \<and> owned st' (\<sigma>(this := snd m)) F' L"
proof -
  from sim obtain h' p' F' where
    r: "res = Some (h', fst m, p')" and rp: "rep h' p' (root (snd m)) F'"
    and e: "ext (heap st) (F this) h'"
    and s: "\<And>x. x \<in> F' \<Longrightarrow> x \<in> F this \<or> length (heap st) \<le> x"
    unfolding tree_sim_def by blast
  from owned_update[OF ow tL rp e s]
  have "owned \<lparr>heap = h', roots = (roots st)(this := p')\<rparr> (\<sigma>(this := snd m)) (F(this := F')) L"
    by (simp add: rope_eta)
  moreover have "method_call st this res
                   = Some (fst m, \<lparr>heap = h', roots = (roots st)(this := p')\<rparr>)"
    using r by (simp add: method_call_def)
  ultimately show ?thesis by blast
qed

lemma hs_rope_of_string_owned:
  assumes ow: "owned st \<sigma> F L" and a: "a \<notin> L"
  shows "owned (hs_rope_of_string st a str) (\<sigma>(a := rope_of_string str))
           (F(a := {length (heap st)})) (insert a L)"
proof -
  let ?c = "\<lparr>cweight = of_nat (length str), cleft = None, cright = None, cfragment = str\<rparr>"
  let ?h = "heap st @ [?c]"
  have st': "hs_rope_of_string st a str = \<lparr>heap = ?h, roots = (roots st)(a := Some (length (heap st)))\<rparr>"
    by (simp add: hs_rope_of_string_def h_leaf_def new_cell_def)
  show ?thesis unfolding st' owned_def
  proof (intro conjI ballI impI)
    fix b assume b: "b \<in> insert a L"
    show "rep (heap \<lparr>heap = ?h, roots = (roots st)(a := Some (length (heap st)))\<rparr>)
            (roots \<lparr>heap = ?h, roots = (roots st)(a := Some (length (heap st)))\<rparr> b)
            (root ((\<sigma>(a := rope_of_string str)) b)) ((F(a := {length (heap st)})) b)"
    proof (cases "b = a")
      case True
      then show ?thesis using rep_leaf_cell[of "heap st" str] by (simp add: rope_of_string_def)
    next
      case False
      with b a have bL: "b \<in> L" by simp
      from rep_ext[OF owned_rep[OF ow bL] ext_leaf[of "heap st" "{}" ?c]] False
      show ?thesis by simp
    qed
  next
    fix b c assume bc: "b \<in> insert a L" "c \<in> insert a L" "b \<noteq> c"
    have fresh: "length (heap st) \<notin> F d" if "d \<in> L" for d
      using rep_bound[OF owned_rep[OF ow that]] by auto
    from ow have dj: "\<And>b c. b \<in> L \<Longrightarrow> c \<in> L \<Longrightarrow> b \<noteq> c \<Longrightarrow> F b \<inter> F c = {}"
      unfolding owned_def by blast
    show "(F(a := {length (heap st)})) b \<inter> (F(a := {length (heap st)})) c = {}"
    proof (cases "b = a")
      case True
      with bc fresh[of c] show ?thesis by auto
    next
      case nb: False
      show ?thesis
      proof (cases "c = a")
        case True
        with bc fresh[of b] show ?thesis by auto
      next
        case False
        with nb bc dj[of b c] show ?thesis by simp
      qed
    qed
  qed
qed

lemma hs_insert_sim:
  assumes "owned st \<sigma> F L" and "this \<in> L" and "r \<in> L"
  shows "\<exists>st' F'. hs_insert st this i r = Some (fst (op_insert \<sigma> this i r), st')
           \<and> owned st' (snd (op_insert \<sigma> this i r)) F' L"
  using method_call_owned[OF assms(1,2)
          h_insert_rope_sim[OF owned_rep[OF assms(1,2)] owned_rep[OF assms(1,3)], of i]]
  by (simp add: hs_insert_def op_insert_def case_prod_beta)

lemma hs_insert_string_sim:
  assumes "owned st \<sigma> F L" and "this \<in> L"
  shows "\<exists>st' F'. hs_insert_string st this i str = Some (fst (op_insert_string \<sigma> this i str), st')
           \<and> owned st' (snd (op_insert_string \<sigma> this i str)) F' L"
  using method_call_owned[OF assms(1,2)
          h_insert_string_sim[OF owned_rep[OF assms(1,2)], of i str]]
  by (simp add: hs_insert_string_def op_insert_string_def case_prod_beta)

lemma hs_append_sim:
  assumes "owned st \<sigma> F L" and "this \<in> L" and "r \<in> L"
  shows "\<exists>st' F'. hs_append st this r = Some (fst (op_append \<sigma> this r), st')
           \<and> owned st' (snd (op_append \<sigma> this r)) F' L"
  using method_call_owned[OF assms(1,2)
          h_append_rope_sim[OF owned_rep[OF assms(1,2)] owned_rep[OF assms(1,3)]]]
  by (simp add: hs_append_def op_append_def case_prod_beta)

lemma hs_append_string_sim:
  assumes "owned st \<sigma> F L" and "this \<in> L"
  shows "\<exists>st' F'. hs_append_string st this str = Some (fst (op_append_string \<sigma> this str), st')
           \<and> owned st' (snd (op_append_string \<sigma> this str)) F' L"
  using method_call_owned[OF assms(1,2)
          h_append_string_sim[OF owned_rep[OF assms(1,2)], of str]]
  by (simp add: hs_append_string_def op_append_string_def case_prod_beta)

lemma hs_rdelete_sim:
  assumes "owned st \<sigma> F L" and "this \<in> L"
  shows "\<exists>st' F'. hs_rdelete st this start len = Some (fst (op_rdelete \<sigma> this start len), st')
           \<and> owned st' (snd (op_rdelete \<sigma> this start len)) F' L"
  using method_call_owned[OF assms(1,2)
          h_rdelete_sim[OF owned_rep[OF assms(1,2)], of start len]]
  by (simp add: hs_rdelete_def op_rdelete_def case_prod_beta)

lemma hs_assign_sim:
  assumes ow: "owned st \<sigma> F L" and r: "r \<in> L" and s: "s \<in> L"
  shows "\<exists>st' F'. hs_assign st r s = Some (fst (op_assign \<sigma> r s), st')
           \<and> owned st' (snd (op_assign \<sigma> r s)) F' L
           \<and> (r \<noteq> s \<longrightarrow> (\<forall>x \<in> F' r. length (heap st) \<le> x))"
proof (cases "r = s")
  case True
  with ow show ?thesis by (auto simp: hs_assign_def op_assign_def)
next
  case ne: False
  note rs = owned_rep[OF ow s]
  show ?thesis
  proof (cases "root (\<sigma> s)")
    case None
    with rs have "roots st s = None" by (simp add: rep_null_tree_iff)
    then have "hs_assign st r s
                 = Some (Some Undefined, \<lparr>heap = heap st, roots = (roots st)(r := None)\<rparr>)"
      using ne by (simp add: hs_assign_def)
    moreover have "op_assign \<sigma> r s = (Some Undefined, \<sigma>(r := \<lparr>root = None\<rparr>))"
      using ne None by (simp add: op_assign_def)
    moreover have "owned \<lparr>heap = heap st, roots = (roots st)(r := None)\<rparr>
                     (\<sigma>(r := \<lparr>root = None\<rparr>)) (F(r := {})) L"
      by (rule owned_update[OF ow r rep_null ext_refl]) simp
    ultimately show ?thesis
      by (intro exI[of _ "\<lparr>heap = heap st, roots = (roots st)(r := None)\<rparr>"]
            exI[of _ "F(r := {})"]) simp
  next
    case (Some n)
    with rs obtain p where p: "roots st s = Some p" by (auto dest: rep_tree_Some)
    from h_copy_rep[of "heap st" p n "F s"] rs Some p obtain h' A' where
      c: "h_copy (heap st) p = Some (h', Inr (length (heap st)))"
      and rc: "rep h' (Some (length (heap st))) (Some (copy_node n)) A'"
      and b: "\<forall>x \<in> A'. length (heap st) \<le> x"
      and l: "length (heap st) < length h'" and u: "\<forall>x < length (heap st). h' ! x = heap st ! x"
      by auto
    have e: "ext (heap st) (F r) h'" using l u by (simp add: ext_def)
    have "hs_assign st r s
            = Some (None, \<lparr>heap = h', roots = (roots st)(r := Some (length (heap st)))\<rparr>)"
      using ne p c by (simp add: hs_assign_def)
    moreover have "op_assign \<sigma> r s = (None, \<sigma>(r := \<lparr>root = Some (copy_node n)\<rparr>))"
      using ne Some by (simp add: op_assign_def)
    moreover have "owned \<lparr>heap = h', roots = (roots st)(r := Some (length (heap st)))\<rparr>
                     (\<sigma>(r := \<lparr>root = Some (copy_node n)\<rparr>)) (F(r := A')) L"
      by (rule owned_update[OF ow r rc e]) (use b in auto)
    ultimately show ?thesis using b
      by (intro exI[of _ "\<lparr>heap = h', roots = (roots st)(r := Some (length (heap st)))\<rparr>"]
            exI[of _ "F(r := A')"]) simp
  qed
qed

text \<open>A mutator called on the rope \<open>a\<close> returns, and the string of another rope \<open>b\<close>
  is afterwards what it was.\<close>

lemma frame_after:
  assumes ow: "owned st1 \<sigma>1 F1 L" and a: "a \<in> L" and b: "b \<in> L" and ne: "a \<noteq> b"
  shows "\<exists>e st2. hs_insert_string st1 a i str = Some (e, st2)
            \<and> hs_toString st2 b = hs_toString st1 b"
    and "x \<in> L \<Longrightarrow> \<exists>e st2. hs_insert st1 a i x = Some (e, st2)
            \<and> hs_toString st2 b = hs_toString st1 b"
    and "\<exists>e st2. hs_append_string st1 a str = Some (e, st2)
            \<and> hs_toString st2 b = hs_toString st1 b"
    and "x \<in> L \<Longrightarrow> \<exists>e st2. hs_append st1 a x = Some (e, st2)
            \<and> hs_toString st2 b = hs_toString st1 b"
    and "\<exists>e st2. hs_rdelete st1 a start len = Some (e, st2)
            \<and> hs_toString st2 b = hs_toString st1 b"
proof -
  note t1 = hs_toString_owned[OF ow b]
  show "\<exists>e st2. hs_insert_string st1 a i str = Some (e, st2)
            \<and> hs_toString st2 b = hs_toString st1 b"
  proof -
    from hs_insert_string_sim[OF ow a, of i str] obtain st2 F2 where
      r: "hs_insert_string st1 a i str = Some (fst (op_insert_string \<sigma>1 a i str), st2)"
      and o: "owned st2 (snd (op_insert_string \<sigma>1 a i str)) F2 L" by blast
    from hs_toString_owned[OF o b] ne t1 have "hs_toString st2 b = hs_toString st1 b"
      by (simp add: op_insert_string_def case_prod_beta)
    with r show ?thesis by blast
  qed
  show "\<exists>e st2. hs_append_string st1 a str = Some (e, st2)
            \<and> hs_toString st2 b = hs_toString st1 b"
  proof -
    from hs_append_string_sim[OF ow a, of str] obtain st2 F2 where
      r: "hs_append_string st1 a str = Some (fst (op_append_string \<sigma>1 a str), st2)"
      and o: "owned st2 (snd (op_append_string \<sigma>1 a str)) F2 L" by blast
    from hs_toString_owned[OF o b] ne t1 have "hs_toString st2 b = hs_toString st1 b"
      by (simp add: op_append_string_def case_prod_beta)
    with r show ?thesis by blast
  qed
  show "\<exists>e st2. hs_rdelete st1 a start len = Some (e, st2)
            \<and> hs_toString st2 b = hs_toString st1 b"
  proof -
    from hs_rdelete_sim[OF ow a, of start len] obtain st2 F2 where
      r: "hs_rdelete st1 a start len = Some (fst (op_rdelete \<sigma>1 a start len), st2)"
      and o: "owned st2 (snd (op_rdelete \<sigma>1 a start len)) F2 L" by blast
    from hs_toString_owned[OF o b] ne t1 have "hs_toString st2 b = hs_toString st1 b"
      by (simp add: op_rdelete_def case_prod_beta)
    with r show ?thesis by blast
  qed
  show "\<exists>e st2. hs_insert st1 a i x = Some (e, st2)
            \<and> hs_toString st2 b = hs_toString st1 b" if x: "x \<in> L"
  proof -
    from hs_insert_sim[OF ow a x, of i] obtain st2 F2 where
      r: "hs_insert st1 a i x = Some (fst (op_insert \<sigma>1 a i x), st2)"
      and o: "owned st2 (snd (op_insert \<sigma>1 a i x)) F2 L" by blast
    from hs_toString_owned[OF o b] ne t1 have "hs_toString st2 b = hs_toString st1 b"
      by (simp add: op_insert_def case_prod_beta)
    with r show ?thesis by blast
  qed
  show "\<exists>e st2. hs_append st1 a x = Some (e, st2)
            \<and> hs_toString st2 b = hs_toString st1 b" if x: "x \<in> L"
  proof -
    from hs_append_sim[OF ow a x] obtain st2 F2 where
      r: "hs_append st1 a x = Some (fst (op_append \<sigma>1 a x), st2)"
      and o: "owned st2 (snd (op_append \<sigma>1 a x)) F2 L" by blast
    from hs_toString_owned[OF o b] ne t1 have "hs_toString st2 b = hs_toString st1 b"
      by (simp add: op_append_def case_prod_beta)
    with r show ?thesis by blast
  qed
qed

section \<open>Assignment\<close>

lemma two_ropes_owned: "owned two_ropes two_values two_footprints {0, 1}"
proof -
  have 0: "owned (hs_rope_of_string no_ropes 0 []) ((\<lambda>a. rope_default)(0 := rope_of_string []))
             ((\<lambda>a. {})(0 := {0})) {0}"
    using hs_rope_of_string_owned[where st=no_ropes and \<sigma>="\<lambda>a. rope_default"
            and F="\<lambda>a. {}" and L="{}" and a=0 and str="[]", OF owned_empty]
    by (simp add: no_ropes_def)
  have "length (heap (hs_rope_of_string no_ropes 0 [])) = 1"
    by (simp add: hs_rope_of_string_def no_ropes_def h_leaf_def new_cell_def)
  with hs_rope_of_string_owned[where a=1 and str="''abc''", OF 0] show ?thesis
    by (simp add: two_ropes_def two_values_def two_footprints_def insert_commute)
qed

text \<open>
  Where two rope objects have the same root, a mutator called on one of them changes the
  string of the other: after \<^verbatim>\<open>rdelete(1, 2)\<close> on the rope at address 1 of \<open>aliased\<close>, the
  rope at address 0, which was \<^verbatim>\<open>"abcd"\<close>, is \<^verbatim>\<open>"a"\<close>. So that a rope keeps its string
  while another one is changed is a property of the states in which no node is shared.
\<close>

lemma aliased_roots_interfere:
  "hs_toString aliased 0 = Some (Inr ''abcd'')
   \<and> (case hs_rdelete aliased 1 1 2 of
         None \<Rightarrow> False
       | Some (e, st') \<Rightarrow>
           e = None \<and> hs_toString st' 1 = Some (Inr ''ad'')
           \<and> hs_toString st' 0 = Some (Inr ''a''))"
  by code_simp

text \<open>
  Claim C10. Let the rope objects of \<open>L\<close> own their trees (\<open>owned\<close>), \<open>r\<close> and \<open>s\<close> be two
  of them, and \<open>s\<close> have a root. The assignment \<^verbatim>\<open>r = s\<close> returns normally. Afterwards the
  ropes still own their trees, \<open>r\<close> with the value of \<open>s\<close>: the tree of \<open>r\<close> consists of
  nodes that did not exist before the assignment, none of which is a node of \<open>s\<close>.
  \<^verbatim>\<open>toString\<close> of \<open>r\<close> is \<^verbatim>\<open>toString\<close> of \<open>s\<close>, which is what it was. An insert, append or
  delete on \<open>s\<close>, whatever its arguments and its outcome, returns and leaves \<^verbatim>\<open>toString\<close>
  of \<open>r\<close> as it is, and one on \<open>r\<close> leaves \<^verbatim>\<open>toString\<close> of \<open>s\<close> as it is. The
  self-assignment \<^verbatim>\<open>r = r\<close> leaves the whole state as it is.
\<close>

theorem assign_clones_tree:
  assumes ow: "owned st \<sigma> F L" and r: "r \<in> L" and s: "s \<in> L" and ne: "r \<noteq> s"
    and rt: "roots st s \<noteq> None"
  shows "\<exists>st1 F1. hs_assign st r s = Some (None, st1)
           \<and> owned st1 (\<sigma>(r := \<sigma> s)) F1 L
           \<and> F1 r \<noteq> {} \<and> F1 r \<inter> F1 s = {} \<and> (\<forall>c \<in> F1 r. length (heap st) \<le> c)
           \<and> hs_toString st1 r = hs_toString st s
           \<and> hs_toString st1 s = hs_toString st s
           \<and> (\<exists>e st2. hs_insert_string st1 s i str = Some (e, st2)
                  \<and> hs_toString st2 r = hs_toString st1 r)
           \<and> (x \<in> L \<longrightarrow> (\<exists>e st2. hs_insert st1 s i x = Some (e, st2)
                  \<and> hs_toString st2 r = hs_toString st1 r))
           \<and> (\<exists>e st2. hs_append_string st1 s str = Some (e, st2)
                  \<and> hs_toString st2 r = hs_toString st1 r)
           \<and> (x \<in> L \<longrightarrow> (\<exists>e st2. hs_append st1 s x = Some (e, st2)
                  \<and> hs_toString st2 r = hs_toString st1 r))
           \<and> (\<exists>e st2. hs_rdelete st1 s start len = Some (e, st2)
                  \<and> hs_toString st2 r = hs_toString st1 r)
           \<and> (\<exists>e st2. hs_insert_string st1 r i str = Some (e, st2)
                  \<and> hs_toString st2 s = hs_toString st1 s)
           \<and> (x \<in> L \<longrightarrow> (\<exists>e st2. hs_insert st1 r i x = Some (e, st2)
                  \<and> hs_toString st2 s = hs_toString st1 s))
           \<and> (\<exists>e st2. hs_append_string st1 r str = Some (e, st2)
                  \<and> hs_toString st2 s = hs_toString st1 s)
           \<and> (x \<in> L \<longrightarrow> (\<exists>e st2. hs_append st1 r x = Some (e, st2)
                  \<and> hs_toString st2 s = hs_toString st1 s))
           \<and> (\<exists>e st2. hs_rdelete st1 r start len = Some (e, st2)
                  \<and> hs_toString st2 s = hs_toString st1 s)
           \<and> hs_assign st r r = Some (None, st)"
proof -
  from rt owned_rep[OF ow s] obtain n where n: "root (\<sigma> s) = Some n"
    by (cases "root (\<sigma> s)") (auto simp: rep_null_tree_iff)
  have opa: "op_assign \<sigma> r s = (None, \<sigma>(r := \<sigma> s))"
  proof -
    have eq: "\<lparr>root = Some n\<rparr> = \<sigma> s" using n rope_eta[of "\<sigma> s"] by simp
    have "op_assign \<sigma> r s = (None, \<sigma>(r := \<lparr>root = Some n\<rparr>))"
      using ne n by (simp add: op_assign_def copy_node_id)
    then show ?thesis unfolding eq .
  qed
  from hs_assign_sim[OF ow r s] opa ne obtain st1 F1 where
    a: "hs_assign st r s = Some (None, st1)"
    and o1: "owned st1 (\<sigma>(r := \<sigma> s)) F1 L"
    and fresh: "\<forall>c \<in> F1 r. length (heap st) \<le> c"
    by auto
  have dj: "F1 r \<inter> F1 s = {}" using o1 r s ne unfolding owned_def by blast
  have "rep (heap st1) (roots st1 r) (Some n) (F1 r)"
    using owned_rep[OF o1 r] n by simp
  then have nonempty: "F1 r \<noteq> {}" by (auto simp: rep_null_tree_iff elim: rep.cases)
  have tr: "hs_toString st1 r = hs_toString st s"
    using hs_toString_owned[OF o1 r] hs_toString_owned[OF ow s] by simp
  have ts: "hs_toString st1 s = hs_toString st s"
    using hs_toString_owned[OF o1 s] hs_toString_owned[OF ow s] ne by simp
  have self: "hs_assign st r r = Some (None, st)" by (simp add: hs_assign_def)
  note fs = frame_after[OF o1 s r ne[symmetric]]
  note fr = frame_after[OF o1 r s ne]
  show ?thesis
    apply (rule exI[of _ st1])
    apply (rule exI[of _ F1])
    apply (intro conjI impI)
    apply (rule a)
    apply (rule o1)
    apply (rule nonempty)
    apply (rule dj)
    apply (rule fresh)
    apply (rule tr)
    apply (rule ts)
    apply (rule fs(1))
    apply (erule fs(2))
    apply (rule fs(3))
    apply (erule fs(4))
    apply (rule fs(5))
    apply (rule fr(1))
    apply (erule fr(2))
    apply (rule fr(3))
    apply (erule fr(4))
    apply (rule fr(5))
    apply (rule self)
    done
qed

theorem assign_clones_tree_witness:
  "owned two_ropes two_values two_footprints {0, 1}
   \<and> (0::nat) \<in> {0, 1} \<and> (1::nat) \<in> {0, 1} \<and> (0::nat) \<noteq> 1 \<and> roots two_ropes 1 \<noteq> None
   \<and> (\<exists>st1 (F1 :: nat \<Rightarrow> nat set). hs_assign two_ropes 0 1 = Some (None, st1)
          \<and> F1 0 \<noteq> {} \<and> F1 0 \<inter> F1 1 = {}
          \<and> hs_toString st1 0 = Some (Inr ''abc'')
          \<and> hs_toString st1 1 = Some (Inr ''abc'')
          \<and> (\<exists>e st2. hs_append_string st1 1 ''d'' = Some (e, st2)
                 \<and> hs_toString st2 0 = Some (Inr ''abc''))
          \<and> (\<exists>e st2. hs_rdelete st1 0 0 2 = Some (e, st2)
                 \<and> hs_toString st2 1 = Some (Inr ''abc'')))"
proof -
  have rt: "roots two_ropes 1 \<noteq> None"
    by (simp add: two_ropes_def hs_rope_of_string_def h_leaf_def new_cell_def)
  have ts: "hs_toString two_ropes 1 = Some (Inr ''abc'')"
    by code_simp
  have m: "(0::nat) \<in> {0, 1}" "(1::nat) \<in> {0, 1}" "(0::nat) \<noteq> 1" by simp_all
  note th = assign_clones_tree[where st=two_ropes and \<sigma>=two_values and F=two_footprints
      and L="{0, 1}" and r=0 and s=1 and str="''d''" and start=0 and len=2 and i=0 and x=0,
      OF two_ropes_owned m rt]
  from th have concl:
    "\<exists>st1 (F1 :: nat \<Rightarrow> nat set). hs_assign two_ropes 0 1 = Some (None, st1)
          \<and> F1 0 \<noteq> {} \<and> F1 0 \<inter> F1 1 = {}
          \<and> hs_toString st1 0 = Some (Inr ''abc'')
          \<and> hs_toString st1 1 = Some (Inr ''abc'')
          \<and> (\<exists>e st2. hs_append_string st1 1 ''d'' = Some (e, st2)
                 \<and> hs_toString st2 0 = Some (Inr ''abc''))
          \<and> (\<exists>e st2. hs_rdelete st1 0 0 2 = Some (e, st2)
                 \<and> hs_toString st2 1 = Some (Inr ''abc''))"
  proof (elim exE conjE)
    fix st1 and F1 :: "nat \<Rightarrow> nat set" and e1 st2 e2 st3
    assume a: "hs_assign two_ropes 0 1 = Some (None, st1)"
      and b: "F1 0 \<noteq> {}" "F1 0 \<inter> F1 1 = {}"
      and c: "hs_toString st1 0 = hs_toString two_ropes 1"
        "hs_toString st1 1 = hs_toString two_ropes 1"
      and d: "hs_append_string st1 1 ''d'' = Some (e1, st2)"
        "hs_toString st2 0 = hs_toString st1 0"
      and e: "hs_rdelete st1 0 0 2 = Some (e2, st3)"
        "hs_toString st3 1 = hs_toString st1 1"
    have c': "hs_toString st1 0 = Some (Inr ''abc'')" "hs_toString st1 1 = Some (Inr ''abc'')"
      using c ts by simp_all
    have d': "\<exists>e st2. hs_append_string st1 1 ''d'' = Some (e, st2)
                \<and> hs_toString st2 0 = Some (Inr ''abc'')"
      using d c' by simp
    have e': "\<exists>e st2. hs_rdelete st1 0 0 2 = Some (e, st2)
                \<and> hs_toString st2 1 = Some (Inr ''abc'')"
      using e c' by simp
    show ?thesis
      by (rule exI[of _ st1], rule exI[of _ F1]) (intro conjI a b c' d' e')
  qed
  show ?thesis
    by (intro conjI two_ropes_owned m rt concl)
qed

text \<open>The same scenario computed: after \<^verbatim>\<open>r = s\<close> the root of \<open>r\<close> is the new node at
  address 2, and after \<^verbatim>\<open>s.append("d")\<close> the rope \<open>r\<close> is still \<^verbatim>\<open>"abc"\<close>.\<close>

lemma test_assign_then_append:
  "(case hs_assign two_ropes 0 1 of
      None \<Rightarrow> False
    | Some (e, st1) \<Rightarrow>
        e = None \<and> roots st1 0 = Some 2 \<and> roots st1 1 = Some 1
        \<and> (case hs_append_string st1 1 ''d'' of
              None \<Rightarrow> False
            | Some (e', st2) \<Rightarrow>
                e' = None \<and> hs_toString st2 1 = Some (Inr ''abcd'')
                \<and> hs_toString st2 0 = Some (Inr ''abc'')))"
  by code_simp

end
